theory Spec2Isabelle
  imports Complex_Main "HOL-Library.Multiset"
begin

section \<open>Data model of the detection utilities\<close>

text \<open>
  The module of shared detection utilities declares three interfaces. Field names follow
  the source; where two interfaces share a field name the registry item carries the
  prefix \<open>item\<close> and the subsystem report the prefix \<open>sys\<close>.

  \<^item> \<open>DefectDetection.location\<close> is declared optional (\<^verbatim>\<open>location?: string\<close>), so it is an
    option here; \<open>None\<close> is JavaScript's \<^verbatim>\<open>undefined\<close>.
  \<^item> \<open>DefectRegistryItem.location\<close> is declared \<^verbatim>\<open>string\<close>, but the reconciler stores
    \<^verbatim>\<open>detections.controlSystem.location!\<close> in it, and the non-null assertion checks nothing
    at run time: the field holds whatever the detection held, so it is an option too.
  \<^item> \<open>riskLevel\<close>, \<open>riskLabel\<close> and \<open>riskIcon\<close> of a registry item are filled from the value
    that \<open>getRiskLevel\<close> returns; for a key inherited from \<^verbatim>\<open>Object.prototype\<close> that value has
    none of these properties, so the three fields are options as well.
\<close>

datatype RiskLevel = critical | warning | low

datatype ItemStatus = pending | progress | resolved

datatype SystemStatus = ok | detected

record RiskInfo =
  level :: RiskLevel
  label :: string
  icon :: string
  color :: string
  action :: string

record DefectDetection =
  defectType :: string
  sign :: string
  source :: string
  location :: "string option"

record SystemReport =
  sysStatus :: SystemStatus
  detections :: "DefectDetection list"

record LeakageDetection =
  controlSystem :: SystemReport
  drone :: SystemReport
  totalLeakages :: int

record DefectRegistryItem =
  itemId :: string
  itemDefectType :: string
  itemLocation :: "string option"
  riskLevel :: "RiskLevel option"
  riskLabel :: "string option"
  riskIcon :: "string option"
  detectedDate :: string
  lastDetected :: "string option"
  status :: ItemStatus
  controlSystemSign :: string
  controlSystemSource :: string
  droneSign :: string
  droneSource :: string
  aiConfidence :: int

section \<open>Risk classifier\<close>

text \<open>
  The icons are multi-byte glyphs; they are written as the bytes the source file holds.
\<close>

definition iconCritical :: string where
  "iconCritical = [CHR 0xE6, CHR 0xB8, CHR 0xB8, CHR 0xEB, CHR 0x8C, CHR 0xAE]"

definition iconMedium :: string where
  "iconMedium = [CHR 0xE6, CHR 0xB8, CHR 0xB8]"

definition iconLow :: string where
  "iconLow = [CHR 0xE6, CHR 0xB8, CHR 0xB8, CHR 0xEB, CHR 0xA6, CHR 0xAD]"

definition iconUnknown :: string where
  "iconUnknown = [CHR 0xE4, CHR 0xB8, CHR 0x98, CHR 0xEB, CHR 0xA9, CHR 0x86,
                  CHR 0xEC, CHR 0x9E, CHR 0xBA]"

text \<open>The own properties of the object literal \<^verbatim>\<open>riskMap\<close>, in source order.\<close>

definition riskMap :: "(string \<times> RiskInfo) list" where
  "riskMap =
    [(''Major/Sudden Leak'',
        \<lparr>level = critical, label = ''Critical'', icon = iconCritical, color = ''#ff4757'',
         action = ''Immediate shutdown & emergency response''\<rparr>),
     (''Mechanical Damage'',
        \<lparr>level = critical, label = ''Critical'', icon = iconCritical, color = ''#ff4757'',
         action = ''Immediate preventive action''\<rparr>),
     (''Minor/Gradual Leak'',
        \<lparr>level = warning, label = ''Medium'', icon = iconMedium, color = ''#ffa502'',
         action = ''Enhanced monitoring, repair planning''\<rparr>),
     (''Poor Pipe Support'',
        \<lparr>level = warning, label = ''Medium'', icon = iconMedium, color = ''#ffa502'',
         action = ''Structural intervention''\<rparr>),
     (''Corrosion & Erosion'',
        \<lparr>level = low, label = ''Low'', icon = iconLow, color = ''#1dd1a1'',
         action = ''Scheduled maintenance''\<rparr>),
     (''Insulation/Coating Failure'',
        \<lparr>level = low, label = ''Low'', icon = iconLow, color = ''#1dd1a1'',
         action = ''Preventive maintenance''\<rparr>)]"

definition fallbackRisk :: RiskInfo where
  "fallbackRisk =
     \<lparr>level = warning, label = ''Unknown'', icon = iconUnknown, color = ''#ffa502'',
      action = ''Assessment required''\<rparr>"

text \<open>
  \<^verbatim>\<open>riskMap[defectType]\<close> is a property read on a plain object: when the object has no own
  property of that name the read continues in \<^verbatim>\<open>Object.prototype\<close>. The names below are the
  properties of \<^verbatim>\<open>Object.prototype\<close> (ECMAScript 20.1.3 and Annex B.2.2); each read yields a
  function, and \<^verbatim>\<open>__proto__\<close> yields the prototype object itself, so every one of them is
  truthy and stops the \<^verbatim>\<open>||\<close> before the fallback.
\<close>

definition objectPrototypeKeys :: "string list" where
  "objectPrototypeKeys =
    [''constructor'', ''hasOwnProperty'', ''isPrototypeOf'', ''propertyIsEnumerable'',
     ''toLocaleString'', ''toString'', ''valueOf'', ''__proto__'',
     ''__defineGetter__'', ''__defineSetter__'', ''__lookupGetter__'', ''__lookupSetter__'']"

text \<open>
  What \<open>getRiskLevel\<close> hands back: a risk record (an entry of the table, or the fallback), or
  the member of \<^verbatim>\<open>Object.prototype\<close> found under the given name.
\<close>

datatype RiskResult = Info RiskInfo | Inherited string

definition getRiskLevel :: "string \<Rightarrow> RiskResult" where
  "getRiskLevel dt =
     (case map_of riskMap dt of
        Some r \<Rightarrow> Info r
      | None \<Rightarrow> if dt \<in> set objectPrototypeKeys then Inherited dt else Info fallbackRisk)"

text \<open>Property reads on the returned value; a function object has none of the three.\<close>

definition levelOf :: "RiskResult \<Rightarrow> RiskLevel option" where
  "levelOf r = (case r of Info i \<Rightarrow> Some (level i) | Inherited _ \<Rightarrow> None)"

definition labelOf :: "RiskResult \<Rightarrow> string option" where
  "labelOf r = (case r of Info i \<Rightarrow> Some (label i) | Inherited _ \<Rightarrow> None)"

definition iconOf :: "RiskResult \<Rightarrow> string option" where
  "iconOf r = (case r of Info i \<Rightarrow> Some (icon i) | Inherited _ \<Rightarrow> None)"

section \<open>Host functions\<close>

text \<open>
  \<^verbatim>\<open>new Date(s).getTime()\<close> is a function of the host: it yields the milliseconds since the epoch
  for a string the host can parse and \<^verbatim>\<open>NaN\<close> otherwise. It is a parameter \<open>getTime\<close> of every
  function that sorts, with \<open>None\<close> for \<^verbatim>\<open>NaN\<close>; the theorems hold for every such parser.
\<close>

type_synonym DateParser = "string \<Rightarrow> int option"

text \<open>Subtraction of two \<^verbatim>\<open>getTime()\<close> results: \<^verbatim>\<open>NaN\<close> as soon as one operand is.\<close>

definition timeDiff :: "int option \<Rightarrow> int option \<Rightarrow> int option" where
  "timeDiff x y = (case x of None \<Rightarrow> None | Some a \<Rightarrow> (case y of None \<Rightarrow> None | Some b \<Rightarrow> Some (a - b)))"

text \<open>Truthiness of an optional string: \<^verbatim>\<open>undefined\<close> and the empty string are falsy.\<close>

definition truthy :: "string option \<Rightarrow> bool" where
  "truthy s = (case s of None \<Rightarrow> False | Some t \<Rightarrow> t \<noteq> [])"

text \<open>
  \<^verbatim>\<open>Array.prototype.sort(comparefn)\<close> is stable, and a comparator result of \<^verbatim>\<open>NaN\<close> counts as
  \<open>+0\<close>. For a consistent comparator every stable sort returns the same array; the model is
  the stable insertion sort: an element moves behind its right neighbours only while the
  comparator says it is greater. (For an inconsistent comparator ECMAScript leaves the order
  to the implementation; the theorems below that speak about order assume parseable dates,
  for which the comparators of this module are consistent.)
\<close>

definition sortsAfter :: "('a \<Rightarrow> 'a \<Rightarrow> int option) \<Rightarrow> 'a \<Rightarrow> 'a \<Rightarrow> bool" where
  "sortsAfter comparefn x y = (case comparefn x y of None \<Rightarrow> False | Some v \<Rightarrow> 0 < v)"

fun insertSorted :: "('a \<Rightarrow> 'a \<Rightarrow> int option) \<Rightarrow> 'a \<Rightarrow> 'a list \<Rightarrow> 'a list" where
  "insertSorted comparefn x [] = [x]"
| "insertSorted comparefn x (y # ys) =
     (if sortsAfter comparefn x y then y # insertSorted comparefn x ys else x # y # ys)"

definition arraySort :: "('a \<Rightarrow> 'a \<Rightarrow> int option) \<Rightarrow> 'a list \<Rightarrow> 'a list" where
  "arraySort comparefn xs = foldr (insertSorted comparefn) xs []"

text \<open>\<^verbatim>\<open>Array.prototype.findIndex\<close>: the first index that satisfies the predicate; \<open>None\<close> is \<open>-1\<close>.\<close>

fun findIndex :: "('a \<Rightarrow> bool) \<Rightarrow> 'a list \<Rightarrow> nat option" where
  "findIndex p [] = None"
| "findIndex p (x # xs) =
     (if p x then Some 0 else (case findIndex p xs of None \<Rightarrow> None | Some i \<Rightarrow> Some (Suc i)))"

text \<open>\<^verbatim>\<open>String(n)\<close> for a non-negative integer, and \<^verbatim>\<open>padStart\<close>.\<close>

fun String :: "nat \<Rightarrow> string" where
  "String n =
     (if n < 10 then [''0123456789'' ! n]
      else String (n div 10) @ [''0123456789'' ! (n mod 10)])"

declare String.simps [simp del]

definition padStart :: "nat \<Rightarrow> char \<Rightarrow> string \<Rightarrow> string" where
  "padStart targetLength c s = replicate (targetLength - length s) c @ s"

section \<open>Module state\<close>

text \<open>
  The module keeps one variable, \<^verbatim>\<open>let defectIdCounter = 100\<close>; it holds an integer far below
  \<open>2^53\<close>, where JavaScript numbers are exact, and is a natural number here. The session also
  carries the values that \<^verbatim>\<open>Math.random()\<close> is going to return, as rationals in source order.
\<close>

record Session =
  defectIdCounter :: nat
  mathRandom :: "nat \<Rightarrow> rat"

definition initialSession :: "(nat \<Rightarrow> rat) \<Rightarrow> Session" where
  "initialSession rnd = \<lparr>defectIdCounter = 100, mathRandom = rnd\<rparr>"

definition nextRandom :: "Session \<Rightarrow> rat \<times> Session" where
  "nextRandom s = (mathRandom s 0, s\<lparr>mathRandom := (\<lambda>k. mathRandom s (Suc k))\<rparr>)"

definition MAX_DEFECT_REGISTRY_SIZE :: nat where
  "MAX_DEFECT_REGISTRY_SIZE = 15"

definition generateDefectId :: "Session \<Rightarrow> string \<times> Session" where
  "generateDefectId s =
     (let n = defectIdCounter s + 1
      in (''DEF-'' @ padStart 3 (CHR ''0'') (String n), s\<lparr>defectIdCounter := n\<rparr>))"

section \<open>Reconciliation of the defect registry\<close>

text \<open>
  The \<^verbatim>\<open>Map\<close> from \<^verbatim>\<open>`${location}-${defectType}`\<close> to the pair of optional detections is an
  association list in insertion order, which is the order \<^verbatim>\<open>forEach\<close> visits. An undefined
  location prints as \<^verbatim>\<open>undefined\<close> in the template string.
\<close>

record DetectionGroup =
  fromControlSystem :: "DefectDetection option"
  fromDrone :: "DefectDetection option"

type_synonym LocationDefectMap = "(string \<times> DetectionGroup) list"

definition detectionKey :: "string option \<Rightarrow> string \<Rightarrow> string" where
  "detectionKey loc dt = (case loc of None \<Rightarrow> ''undefined'' | Some l \<Rightarrow> l) @ ''-'' @ dt"

definition mapHas :: "LocationDefectMap \<Rightarrow> string \<Rightarrow> bool" where
  "mapHas m key = (key \<in> set (map fst m))"

definition ensureKey :: "LocationDefectMap \<Rightarrow> string \<Rightarrow> LocationDefectMap" where
  "ensureKey m key =
     (if \<not> mapHas m key then m @ [(key, \<lparr>fromControlSystem = None, fromDrone = None\<rparr>)] else m)"

definition modifyAt :: "string \<Rightarrow> (DetectionGroup \<Rightarrow> DetectionGroup) \<Rightarrow> LocationDefectMap \<Rightarrow> LocationDefectMap" where
  "modifyAt key f m = map (\<lambda>(k, g). if k = key then (k, f g) else (k, g)) m"

definition addControlSystem :: "LocationDefectMap \<Rightarrow> DefectDetection \<Rightarrow> LocationDefectMap" where
  "addControlSystem m detection =
     (let key = detectionKey (location detection) (defectType detection)
      in modifyAt key (\<lambda>g. g\<lparr>fromControlSystem := Some detection\<rparr>) (ensureKey m key))"

definition addDrone :: "LocationDefectMap \<Rightarrow> DefectDetection \<Rightarrow> LocationDefectMap" where
  "addDrone m detection =
     (let key = detectionKey (location detection) (defectType detection)
      in modifyAt key (\<lambda>g. g\<lparr>fromDrone := Some detection\<rparr>) (ensureKey m key))"

definition groupDetections :: "LeakageDetection \<Rightarrow> LocationDefectMap" where
  "groupDetections leakageStatus =
     foldl addDrone
       (foldl addControlSystem [] (detections (controlSystem leakageStatus)))
       (detections (drone leakageStatus))"

text \<open>The status expression shared by the update and the creation branch.\<close>

definition statusFor :: "RiskLevel option \<Rightarrow> ItemStatus" where
  "statusFor l = (if l = Some critical then pending else if l = Some warning then progress else pending)"

definition confidenceFrom :: "rat \<Rightarrow> int" where
  "confidenceFrom r = min 99 (85 + \<lfloor>r * 10\<rfloor>)"

text \<open>
  The object written over a matching entry: the spread keeps every field that is not listed
  (\<open>id\<close>, \<open>defectType\<close>, \<open>location\<close>, \<open>riskLevel\<close>, \<open>riskLabel\<close>, \<open>riskIcon\<close>).
\<close>

definition updatedDefect ::
  "string \<Rightarrow> string \<Rightarrow> DefectDetection \<Rightarrow> DefectDetection \<Rightarrow> RiskResult \<Rightarrow> rat
     \<Rightarrow> DefectRegistryItem \<Rightarrow> DefectRegistryItem" where
  "updatedDefect currentTimestamp currentDate c d riskInfo r old =
     old\<lparr>detectedDate := currentDate,
         lastDetected := Some currentTimestamp,
         status := statusFor (levelOf riskInfo),
         controlSystemSign := sign c,
         controlSystemSource := source c,
         droneSign := sign d,
         droneSource := source d,
         aiConfidence := confidenceFrom r\<rparr>"

definition newDefect ::
  "string \<Rightarrow> string \<Rightarrow> DefectDetection \<Rightarrow> DefectDetection \<Rightarrow> RiskResult \<Rightarrow> string \<Rightarrow> rat
     \<Rightarrow> DefectRegistryItem" where
  "newDefect currentTimestamp currentDate c d riskInfo newId r =
     \<lparr>itemId = newId,
      itemDefectType = defectType c,
      itemLocation = location c,
      riskLevel = levelOf riskInfo,
      riskLabel = labelOf riskInfo,
      riskIcon = iconOf riskInfo,
      detectedDate = currentDate,
      lastDetected = Some currentTimestamp,
      status = statusFor (levelOf riskInfo),
      controlSystemSign = sign c,
      controlSystemSource = source c,
      droneSign = sign d,
      droneSource = source d,
      aiConfidence = confidenceFrom r\<rparr>"

text \<open>
  The body of \<^verbatim>\<open>locationDefectMap.forEach\<close>: one group against the registry built so far.
  Only a group that holds a detection of both systems is processed; location and defect
  type are taken from the control system's detection.
\<close>

definition matches :: "DefectDetection \<Rightarrow> DefectRegistryItem \<Rightarrow> bool" where
  "matches c x = (itemLocation x = location c \<and> itemDefectType x = defectType c)"

definition processGroup ::
  "string \<Rightarrow> string \<Rightarrow> DefectRegistryItem list \<times> Session \<Rightarrow> DetectionGroup
     \<Rightarrow> DefectRegistryItem list \<times> Session" where
  "processGroup currentTimestamp currentDate acc g =
     (case fromControlSystem g of
        None \<Rightarrow> acc
      | Some c \<Rightarrow>
         (case fromDrone g of
            None \<Rightarrow> acc
          | Some d \<Rightarrow>
             (let updatedRegistry = fst acc;
                  s = snd acc;
                  riskInfo = getRiskLevel (defectType c)
              in case findIndex (matches c) updatedRegistry of
                   Some i \<Rightarrow>
                     (let rs = nextRandom s
                      in (updatedRegistry[i :=
                            updatedDefect currentTimestamp currentDate c d riskInfo (fst rs)
                              (updatedRegistry ! i)],
                          snd rs))
                 | None \<Rightarrow>
                     (let ids = generateDefectId s;
                          rs = nextRandom (snd ids)
                      in (updatedRegistry @
                            [newDefect currentTimestamp currentDate c d riskInfo (fst ids) (fst rs)],
                          snd rs)))))"

text \<open>The comparator of the registry sort.\<close>

definition registryOrder :: "DateParser \<Rightarrow> DefectRegistryItem \<Rightarrow> DefectRegistryItem \<Rightarrow> int option" where
  "registryOrder getTime a b =
     (if truthy (lastDetected a) \<and> truthy (lastDetected b)
        then timeDiff (getTime (the (lastDetected b))) (getTime (the (lastDetected a)))
      else if truthy (lastDetected a) \<and> \<not> truthy (lastDetected b) then Some (- 1)
      else if \<not> truthy (lastDetected a) \<and> truthy (lastDetected b) then Some 1
      else timeDiff (getTime (detectedDate b)) (getTime (detectedDate a)))"

text \<open>
  The function reads the clock twice: \<^verbatim>\<open>new Date().toISOString()\<close> for the timestamp, and once
  more for the date, of which it keeps the part before the first \<^verbatim>\<open>T\<close>.
\<close>

record Clock =
  timestampRead :: string
  dateRead :: string

definition currentDateOf :: "Clock \<Rightarrow> string" where
  "currentDateOf clk = takeWhile (\<lambda>ch. ch \<noteq> CHR ''T'') (dateRead clk)"

definition mergeDetections ::
  "Clock \<Rightarrow> Session \<Rightarrow> DefectRegistryItem list \<Rightarrow> LeakageDetection
     \<Rightarrow> DefectRegistryItem list \<times> Session" where
  "mergeDetections clk s currentRegistry leakageStatus =
     foldl (processGroup (timestampRead clk) (currentDateOf clk)) (currentRegistry, s)
       (map snd (groupDetections leakageStatus))"

definition updateDefectRegistryWithDetections ::
  "DateParser \<Rightarrow> Clock \<Rightarrow> Session \<Rightarrow> DefectRegistryItem list \<Rightarrow> LeakageDetection
     \<Rightarrow> DefectRegistryItem list \<times> Session" where
  "updateDefectRegistryWithDetections getTime clk s currentRegistry leakageStatus =
     (let merged = mergeDetections clk s currentRegistry leakageStatus;
          updatedRegistry = arraySort (registryOrder getTime) (fst merged)
      in (if MAX_DEFECT_REGISTRY_SIZE < length updatedRegistry
            then take MAX_DEFECT_REGISTRY_SIZE updatedRegistry
            else updatedRegistry,
          snd merged))"

section \<open>The static registry\<close>

definition getStaticDefectRegistry :: "DefectRegistryItem list" where
  "getStaticDefectRegistry =
    [\<lparr>itemId = ''DEF-001'',
       itemDefectType = ''Major/Sudden Leak'',
       itemLocation = Some ''Section A-B'',
       riskLevel = Some critical,
       riskLabel = Some ''Critical'',
       riskIcon = Some iconCritical,
       detectedDate = ''2024-11-15'',
       lastDetected = None,
       status = resolved,
       controlSystemSign = ''High pressure drop'',
       controlSystemSource = ''PT'',
       droneSign = ''Direct visual sighting of spill'',
       droneSource = ''Visible spectrum camera'',
       aiConfidence = 92\<rparr>,
     \<lparr>itemId = ''DEF-002'',
       itemDefectType = ''Major/Sudden Leak'',
       itemLocation = Some ''Main Pipeline KM 12.5'',
       riskLevel = Some critical,
       riskLabel = Some ''Critical'',
       riskIcon = Some iconCritical,
       detectedDate = ''2024-10-22'',
       lastDetected = None,
       status = resolved,
       controlSystemSign = ''Imbalance mass flow'',
       controlSystemSource = ''FT'',
       droneSign = ''Detection of gas cloud'',
       droneSource = ''Spectroscopic sensor'',
       aiConfidence = 89\<rparr>,
     \<lparr>itemId = ''DEF-003'',
       itemDefectType = ''Mechanical Damage'',
       itemLocation = Some ''Section B-C'',
       riskLevel = Some critical,
       riskLabel = Some ''Critical'',
       riskIcon = Some iconCritical,
       detectedDate = ''2024-09-18'',
       lastDetected = None,
       status = resolved,
       controlSystemSign = ''N/A'',
       controlSystemSource = ''N/A'',
       droneSign = ''Clear identification of damage: Dents, cracks'',
       droneSource = ''Visible spectrum camera'',
       aiConfidence = 87\<rparr>,
     \<lparr>itemId = ''DEF-004'',
       itemDefectType = ''Mechanical Damage'',
       itemLocation = Some ''Branch Line'',
       riskLevel = Some critical,
       riskLabel = Some ''Critical'',
       riskIcon = Some iconCritical,
       detectedDate = ''2024-08-05'',
       lastDetected = None,
       status = resolved,
       controlSystemSign = ''N/A'',
       controlSystemSource = ''N/A'',
       droneSign = ''Detection of unauthorized activities (excavation, construction)'',
       droneSource = ''Visible spectrum camera'',
       aiConfidence = 85\<rparr>,
     \<lparr>itemId = ''DEF-005'',
       itemDefectType = ''Minor/Gradual Leak'',
       itemLocation = Some ''Section C-D'',
       riskLevel = Some warning,
       riskLabel = Some ''Medium'',
       riskIcon = Some iconMedium,
       detectedDate = ''2024-07-12'',
       lastDetected = None,
       status = resolved,
       controlSystemSign = ''Small, persistent deviation in mass balance'',
       controlSystemSource = ''FT'',
       droneSign = ''Gradual discoloration'',
       droneSource = ''Visible spectrum camera'',
       aiConfidence = 91\<rparr>,
     \<lparr>itemId = ''DEF-006'',
       itemDefectType = ''Minor/Gradual Leak'',
       itemLocation = Some ''Main Pipeline KM 18.3'',
       riskLevel = Some warning,
       riskLabel = Some ''Medium'',
       riskIcon = Some iconMedium,
       detectedDate = ''2024-06-28'',
       lastDetected = None,
       status = resolved,
       controlSystemSign = ''Slow pressure decline'',
       controlSystemSource = ''PT'',
       droneSign = ''Consistently elevated gas concentration at a specific point'',
       droneSource = ''Spectroscopic sensor'',
       aiConfidence = 88\<rparr>,
     \<lparr>itemId = ''DEF-007'',
       itemDefectType = ''Poor Pipe Support'',
       itemLocation = Some ''Station Area'',
       riskLevel = Some warning,
       riskLabel = Some ''Medium'',
       riskIcon = Some iconMedium,
       detectedDate = ''2024-05-14'',
       lastDetected = None,
       status = resolved,
       controlSystemSign = ''Unusual vibrations'',
       controlSystemSource = ''Seismometer'',
       droneSign = ''Visual identification of loose, shifted, or broken pipe supports'',
       droneSource = ''Visible spectrum camera'',
       aiConfidence = 86\<rparr>,
     \<lparr>itemId = ''DEF-008'',
       itemDefectType = ''Poor Pipe Support'',
       itemLocation = Some ''Section A-B'',
       riskLevel = Some warning,
       riskLabel = Some ''Medium'',
       riskIcon = Some iconMedium,
       detectedDate = ''2024-04-20'',
       lastDetected = None,
       status = resolved,
       controlSystemSign = ''Unusual vibrations'',
       controlSystemSource = ''Seismometer'',
       droneSign = ''Identification of soil erosion or subsidence under the pipe'',
       droneSource = ''Visible spectrum camera'',
       aiConfidence = 84\<rparr>,
     \<lparr>itemId = ''DEF-009'',
       itemDefectType = ''Corrosion & Erosion'',
       itemLocation = Some ''Section B-C'',
       riskLevel = Some low,
       riskLabel = Some ''Low'',
       riskIcon = Some iconLow,
       detectedDate = ''2024-03-08'',
       lastDetected = None,
       status = resolved,
       controlSystemSign = ''Decrease in pressure'',
       controlSystemSource = ''PT'',
       droneSign = ''Visual signs of rust, coating damage, or corrosion on exposed pipe'',
       droneSource = ''Visible spectrum camera'',
       aiConfidence = 90\<rparr>,
     \<lparr>itemId = ''DEF-010'',
       itemDefectType = ''Corrosion & Erosion'',
       itemLocation = Some ''Main Pipeline KM 12.5'',
       riskLevel = Some low,
       riskLabel = Some ''Low'',
       riskIcon = Some iconLow,
       detectedDate = ''2024-02-15'',
       lastDetected = None,
       status = resolved,
       controlSystemSign = ''Decrease in pressure'',
       controlSystemSource = ''PT'',
       droneSign = ''Visual signs of rust, coating damage, or corrosion on exposed pipe'',
       droneSource = ''Visible spectrum camera'',
       aiConfidence = 87\<rparr>,
     \<lparr>itemId = ''DEF-011'',
       itemDefectType = ''Insulation/Coating Failure'',
       itemLocation = Some ''Section C-D'',
       riskLevel = Some low,
       riskLabel = Some ''Low'',
       riskIcon = Some iconLow,
       detectedDate = ''2024-01-22'',
       lastDetected = None,
       status = resolved,
       controlSystemSign = ''Increased heat loss'',
       controlSystemSource = ''TT'',
       droneSign = ''Detection of insulation failures'',
       droneSource = ''Visible spectrum camera'',
       aiConfidence = 89\<rparr>,
     \<lparr>itemId = ''DEF-012'',
       itemDefectType = ''Insulation/Coating Failure'',
       itemLocation = Some ''Branch Line'',
       riskLevel = Some low,
       riskLabel = Some ''Low'',
       riskIcon = Some iconLow,
       detectedDate = ''2023-12-10'',
       lastDetected = None,
       status = resolved,
       controlSystemSign = ''Increased heat loss'',
       controlSystemSource = ''TT'',
       droneSign = ''Hot or cold spots along the pipe'',
       droneSource = ''Thermal imaging camera'',
       aiConfidence = 85\<rparr>]"

text \<open>The comparator of \<open>getInitialDefectRegistry\<close>: by \<open>detectedDate\<close>, most recent first.\<close>

definition byDetectedDate :: "DateParser \<Rightarrow> DefectRegistryItem \<Rightarrow> DefectRegistryItem \<Rightarrow> int option" where
  "byDetectedDate getTime a b = timeDiff (getTime (detectedDate b)) (getTime (detectedDate a))"

definition getInitialDefectRegistry :: "DateParser \<Rightarrow> DefectRegistryItem list" where
  "getInitialDefectRegistry getTime =
     take MAX_DEFECT_REGISTRY_SIZE (arraySort (byDetectedDate getTime) getStaticDefectRegistry)"

section \<open>A date parser for concrete runs\<close>

text \<open>
  The closed examples need one concrete \<open>DateParser\<close>. \<open>isoTime\<close> reads the two shapes the
  module itself writes, \<^verbatim>\<open>YYYY-MM-DD\<close> and \<^verbatim>\<open>YYYY-MM-DDTHH:mm:ss.sssZ\<close>, as every host does
  (both are UTC), and is \<^verbatim>\<open>NaN\<close> on everything else.
\<close>

fun readNat :: "nat \<Rightarrow> string \<Rightarrow> nat option" where
  "readNat acc [] = Some acc"
| "readNat acc (ch # cs) =
     (case findIndex (\<lambda>d. d = ch) ''0123456789'' of
        None \<Rightarrow> None
      | Some v \<Rightarrow> readNat (10 * acc + v) cs)"

definition field :: "nat \<Rightarrow> nat \<Rightarrow> string \<Rightarrow> nat option" where
  "field from len s = (if length (take len (drop from s)) = len then readNat 0 (take len (drop from s)) else None)"

definition daysInMonth :: "nat \<Rightarrow> nat \<Rightarrow> nat" where
  "daysInMonth y m =
     (if m = 2 then (if y mod 4 = 0 \<and> (y mod 100 \<noteq> 0 \<or> y mod 400 = 0) then 29 else 28)
      else if m \<in> {4, 6, 9, 11} then 30 else 31)"

text \<open>Days between 1970-01-01 and a civil date of the proleptic Gregorian calendar.\<close>

definition daysFromCivil :: "nat \<Rightarrow> nat \<Rightarrow> nat \<Rightarrow> int" where
  "daysFromCivil y m d =
     (let y' = (if m \<le> 2 then int y - 1 else int y);
          era = y' div 400;
          yoe = y' - era * 400;
          mp = (if 2 < m then int m - 3 else int m + 9);
          doy = (153 * mp + 2) div 5 + int d - 1;
          doe = yoe * 365 + yoe div 4 - yoe div 100 + doy
      in era * 146097 + doe - 719468)"

definition isoDate :: "string \<Rightarrow> int option" where
  "isoDate s =
     (case field 0 4 s of None \<Rightarrow> None | Some y \<Rightarrow>
     (case field 5 2 s of None \<Rightarrow> None | Some m \<Rightarrow>
     (case field 8 2 s of None \<Rightarrow> None | Some d \<Rightarrow>
        (if take 1 (drop 4 s) = ''-'' \<and> take 1 (drop 7 s) = ''-''
            \<and> 1 \<le> m \<and> m \<le> 12 \<and> 1 \<le> d \<and> d \<le> daysInMonth y m
         then Some (daysFromCivil y m d * 86400000) else None))))"

definition isoClock :: "string \<Rightarrow> int option" where
  "isoClock s =
     (case field 1 2 s of None \<Rightarrow> None | Some h \<Rightarrow>
     (case field 4 2 s of None \<Rightarrow> None | Some mi \<Rightarrow>
     (case field 7 2 s of None \<Rightarrow> None | Some sec \<Rightarrow>
     (case field 10 3 s of None \<Rightarrow> None | Some ms \<Rightarrow>
        (if take 1 s = ''T'' \<and> take 1 (drop 3 s) = '':'' \<and> take 1 (drop 6 s) = '':''
            \<and> take 1 (drop 9 s) = ''.'' \<and> drop 13 s = ''Z''
            \<and> h < 24 \<and> mi < 60 \<and> sec < 60
         then Some (int (((h * 60 + mi) * 60 + sec) * 1000 + ms)) else None)))))"

definition isoTime :: DateParser where
  "isoTime s =
     (if length s = 10 then isoDate s
      else (case isoDate (take 10 s) of None \<Rightarrow> None | Some day \<Rightarrow>
           (case isoClock (drop 10 s) of None \<Rightarrow> None | Some t \<Rightarrow> Some (day + t))))"

section \<open>Notions used in the statements\<close>

text \<open>
  The identity key of a registry entry and of a detection, the string key under which the
  reconciler files a detection, and the keys on which it finds both systems agreeing: the
  location and defect type of the control system's detection in every group that also holds
  a detection of the drone.
\<close>

definition pairOf :: "DefectRegistryItem \<Rightarrow> string option \<times> string" where
  "pairOf e = (itemLocation e, itemDefectType e)"

definition detectionPair :: "DefectDetection \<Rightarrow> string option \<times> string" where
  "detectionPair d = (location d, defectType d)"

definition keyOf :: "DefectDetection \<Rightarrow> string" where
  "keyOf d = detectionKey (location d) (defectType d)"

definition agreedPair :: "DetectionGroup \<Rightarrow> (string option \<times> string) option" where
  "agreedPair g =
     (case fromControlSystem g of
        None \<Rightarrow> None
      | Some c \<Rightarrow> (case fromDrone g of None \<Rightarrow> None | Some d \<Rightarrow> Some (detectionPair c)))"

definition agreedPairs :: "LeakageDetection \<Rightarrow> (string option \<times> string) list" where
  "agreedPairs leakageStatus = List.map_filter agreedPair (map snd (groupDetections leakageStatus))"

text \<open>What the reconciler writes into an entry it creates or updates.\<close>

definition redetected :: "Clock \<Rightarrow> DefectRegistryItem \<Rightarrow> bool" where
  "redetected clk e =
     (lastDetected e = Some (timestampRead clk) \<and> detectedDate e = currentDateOf clk
      \<and> status e = statusFor (levelOf (getRiskLevel (itemDefectType e))))"

text \<open>
  The registry sort looks at an entry through two things: whether \<open>lastDetected\<close> is truthy,
  and the time of the date it then compares (\<open>lastDetected\<close> if truthy, else \<open>detectedDate\<close>).
\<close>

definition hasLastDetected :: "DefectRegistryItem \<Rightarrow> bool" where
  "hasLastDetected e = truthy (lastDetected e)"

definition sortTime :: "DateParser \<Rightarrow> DefectRegistryItem \<Rightarrow> int option" where
  "sortTime getTime e =
     (case lastDetected e of
        None \<Rightarrow> getTime (detectedDate e)
      | Some t \<Rightarrow> if t \<noteq> [] then getTime t else getTime (detectedDate e))"

text \<open>Both times are numbers and the first is not earlier than the second.\<close>

definition notEarlier :: "int option \<Rightarrow> int option \<Rightarrow> bool" where
  "notEarlier x y =
     (case x of None \<Rightarrow> False | Some a \<Rightarrow> (case y of None \<Rightarrow> False | Some b \<Rightarrow> b \<le> a))"

text \<open>
  A session of the page: successive calls, each on the registry and the module state that
  the previous call left. The result lists the registry after every call.
\<close>

fun reconcileTrace ::
  "DateParser \<Rightarrow> Session \<Rightarrow> DefectRegistryItem list \<Rightarrow> (Clock \<times> LeakageDetection) list
     \<Rightarrow> DefectRegistryItem list list" where
  "reconcileTrace getTime s registry [] = []"
| "reconcileTrace getTime s registry (step # rest) =
     (let r = updateDefectRegistryWithDetections getTime (fst step) s registry (snd step)
      in fst r # reconcileTrace getTime (snd r) (fst r) rest)"

text \<open>An entry whose stored risk level is the one the classifier gives its defect type.\<close>

definition riskConsistent :: "DefectRegistryItem \<Rightarrow> bool" where
  "riskConsistent e = (riskLevel e = levelOf (getRiskLevel (itemDefectType e)))"

section \<open>Concrete inputs\<close>

text \<open>
  Inputs for the closed examples: two clock readings half a minute apart, a major leak at
  Section A-B as each system reports it, and snapshots built from the two reports.
\<close>

definition clockAt1000 :: Clock where
  "clockAt1000 = \<lparr>timestampRead = ''2026-11-02T10:00:00.000Z'', dateRead = ''2026-11-02T10:00:00.000Z''\<rparr>"

definition clockAt1030 :: Clock where
  "clockAt1030 = \<lparr>timestampRead = ''2026-11-02T10:00:30.000Z'', dateRead = ''2026-11-02T10:00:30.000Z''\<rparr>"

definition leakByControl :: DefectDetection where
  "leakByControl =
     \<lparr>defectType = ''Major/Sudden Leak'', sign = ''Imbalance mass flow'', source = ''FT'',
      location = Some ''Section A-B''\<rparr>"

definition leakByDrone :: DefectDetection where
  "leakByDrone =
     \<lparr>defectType = ''Major/Sudden Leak'', sign = ''Detection of gas cloud'',
      source = ''Spectroscopic sensor'', location = Some ''Section A-B''\<rparr>"

definition snapshotOf :: "DefectDetection list \<Rightarrow> DefectDetection list \<Rightarrow> LeakageDetection" where
  "snapshotOf cs ds =
     \<lparr>controlSystem = \<lparr>sysStatus = (if cs = [] then ok else detected), detections = cs\<rparr>,
      drone = \<lparr>sysStatus = (if ds = [] then ok else detected), detections = ds\<rparr>,
      totalLeakages = int (max (length cs) (length ds))\<rparr>"

text \<open>
  A full registry as earlier calls leave it: three entries created the day before for minor
  leaks, followed by the twelve static entries, already in the order of the registry sort.
\<close>

definition minorLeakAt :: "string \<Rightarrow> DefectDetection" where
  "minorLeakAt loc =
     \<lparr>defectType = ''Minor/Gradual Leak'', sign = ''Slow pressure decline'', source = ''PT'',
      location = Some loc\<rparr>"

definition createdYesterday :: "string \<Rightarrow> string \<Rightarrow> DefectRegistryItem" where
  "createdYesterday newId loc =
     newDefect ''2026-11-01T09:00:00.000Z'' ''2026-11-01'' (minorLeakAt loc) (minorLeakAt loc)
       (getRiskLevel ''Minor/Gradual Leak'') newId 0"

definition fullRegistry :: "DefectRegistryItem list" where
  "fullRegistry =
     [createdYesterday ''DEF-101'' ''Section A-B'',
      createdYesterday ''DEF-102'' ''Section B-C'',
      createdYesterday ''DEF-103'' ''Branch Line''] @ getStaticDefectRegistry"

definition leakAtStation :: DefectDetection where
  "leakAtStation =
     \<lparr>defectType = ''Major/Sudden Leak'', sign = ''High pressure drop'', source = ''PT'',
      location = Some ''Station Area''\<rparr>"

definition coatingByControl :: DefectDetection where
  "coatingByControl =
     \<lparr>defectType = ''Insulation/Coating Failure'', sign = ''Increased heat loss'', source = ''TT'',
      location = Some ''Branch Line''\<rparr>"

definition leakAtPipeline :: DefectDetection where
  "leakAtPipeline =
     \<lparr>defectType = ''Major/Sudden Leak'', sign = ''High pressure drop'', source = ''PT'',
      location = Some ''Main Pipeline KM 12.5''\<rparr>"

definition noRandomness :: "nat \<Rightarrow> rat" where
  "noRandomness k = 0"

section \<open>Identifiers issued in a session\<close>

text \<open>
  The identifiers that \<open>k\<close> successive calls of \<open>generateDefectId\<close> return, and the number an
  identifier carries behind its prefix \<^verbatim>\<open>DEF-\<close>.
\<close>

fun generateDefectIds :: "nat \<Rightarrow> Session \<Rightarrow> string list \<times> Session" where
  "generateDefectIds 0 s = ([], s)"
| "generateDefectIds (Suc k) s =
     (let first = generateDefectId s;
          rest = generateDefectIds k (snd first)
      in (fst first # fst rest, snd rest))"

definition idNumber :: "string \<Rightarrow> nat option" where
  "idNumber i = (if take 4 i = ''DEF-'' then readNat 0 (drop 4 i) else None)"

section \<open>The synthetic generator\<close>

record Signature =
  signatureSign :: string
  signatureSource :: string

record Scenario =
  scenarioType :: string
  byControlSystem :: "Signature list"
  byDrone :: "Signature list"

definition defectScenarios :: "Scenario list" where
  "defectScenarios =
    [\<lparr>scenarioType = ''Major/Sudden Leak'',
      byControlSystem =
        [\<lparr>signatureSign = ''High pressure drop'', signatureSource = ''PT''\<rparr>,
         \<lparr>signatureSign = ''Imbalance mass flow'', signatureSource = ''FT''\<rparr>],
      byDrone =
        [\<lparr>signatureSign = ''Direct visual sighting of spill'', signatureSource = ''Visible spectrum camera''\<rparr>,
         \<lparr>signatureSign = ''Detection of gas cloud'', signatureSource = ''Spectroscopic sensor''\<rparr>,
         \<lparr>signatureSign = ''Distinct thermal anomaly on the ground'', signatureSource = ''Thermal imaging camera''\<rparr>]\<rparr>,
     \<lparr>scenarioType = ''Minor/Gradual Leak'',
      byControlSystem =
        [\<lparr>signatureSign = ''Small, persistent deviation in mass balance'', signatureSource = ''FT''\<rparr>,
         \<lparr>signatureSign = ''Slow pressure decline'', signatureSource = ''PT''\<rparr>],
      byDrone =
        [\<lparr>signatureSign = ''Gradual discoloration'', signatureSource = ''Visible spectrum camera''\<rparr>,
         \<lparr>signatureSign = ''Consistently elevated gas concentration at a specific point'', signatureSource = ''Spectroscopic sensor''\<rparr>,
         \<lparr>signatureSign = ''Long-term changes in soil temperature'', signatureSource = ''Thermal imaging camera''\<rparr>]\<rparr>,
     \<lparr>scenarioType = ''Corrosion & Erosion'',
      byControlSystem =
        [\<lparr>signatureSign = ''Decrease in pressure'', signatureSource = ''PT''\<rparr>],
      byDrone =
        [\<lparr>signatureSign = ''Visual signs of rust, coating damage, or corrosion on exposed pipe'', signatureSource = ''Visible spectrum camera''\<rparr>]\<rparr>,
     \<lparr>scenarioType = ''Mechanical Damage'',
      byControlSystem = [],
      byDrone =
        [\<lparr>signatureSign = ''Clear identification of damage: Dents, cracks'', signatureSource = ''Visible spectrum camera''\<rparr>,
         \<lparr>signatureSign = ''Detection of unauthorized activities (excavation, construction)'', signatureSource = ''Visible spectrum camera''\<rparr>]\<rparr>,
     \<lparr>scenarioType = ''Insulation/Coating Failure'',
      byControlSystem =
        [\<lparr>signatureSign = ''Increased heat loss'', signatureSource = ''TT''\<rparr>],
      byDrone =
        [\<lparr>signatureSign = ''Detection of insulation failures'', signatureSource = ''Visible spectrum camera''\<rparr>,
         \<lparr>signatureSign = ''Hot or cold spots along the pipe'', signatureSource = ''Thermal imaging camera''\<rparr>]\<rparr>,
     \<lparr>scenarioType = ''Poor Pipe Support'',
      byControlSystem =
        [\<lparr>signatureSign = ''Unusual vibrations'', signatureSource = ''Seismometer''\<rparr>],
      byDrone =
        [\<lparr>signatureSign = ''Visual identification of loose, shifted, or broken pipe supports'', signatureSource = ''Visible spectrum camera''\<rparr>,
         \<lparr>signatureSign = ''Identification of soil erosion or subsidence under the pipe'', signatureSource = ''Visible spectrum camera''\<rparr>]\<rparr>]"

definition locations :: "string list" where
  "locations =
     [''Section A-B'', ''Section B-C'', ''Section C-D'', ''Branch Line'', ''Station Area'',
      ''Main Pipeline KM 12.5'', ''Main Pipeline KM 18.3'']"

text \<open>
  \<^verbatim>\<open>xs[Math.floor(r * xs.length)]\<close>: the element at that index, \<^verbatim>\<open>undefined\<close> (\<open>None\<close>) when the
  index is outside the array.
\<close>

definition pick :: "'a list \<Rightarrow> rat \<Rightarrow> 'a option" where
  "pick xs r =
     (let i = \<lfloor>r * of_nat (length xs)\<rfloor>
      in if 0 \<le> i \<and> i < int (length xs) then Some (xs ! nat i) else None)"

text \<open>Reading a property of \<^verbatim>\<open>undefined\<close> throws.\<close>

datatype JsError = TypeError

definition defectsWithBothSystems :: "Scenario list" where
  "defectsWithBothSystems =
     filter (\<lambda>d. 0 < length (byControlSystem d) \<and> 0 < length (byDrone d)) defectScenarios"

text \<open>
  The \<^verbatim>\<open>for\<close> loop, as recursion on the number of rounds still to run; each round draws the
  scenario, the location and the two signatures, in this order, and pushes one detection
  onto each list.
\<close>

fun generateRounds ::
  "nat \<Rightarrow> DefectDetection list \<Rightarrow> DefectDetection list \<Rightarrow> Session
     \<Rightarrow> JsError + (DefectDetection list \<times> DefectDetection list \<times> Session)" where
  "generateRounds 0 controlSystemDetections droneDetections s =
     Inr (controlSystemDetections, droneDetections, s)"
| "generateRounds (Suc n) controlSystemDetections droneDetections s =
     (let r1 = nextRandom s;
          r2 = nextRandom (snd r1)
      in case pick defectsWithBothSystems (fst r1) of
           None \<Rightarrow> Inl TypeError
         | Some selectedDefect \<Rightarrow>
            (let location = pick locations (fst r2);
                 r3 = nextRandom (snd r2);
                 r4 = nextRandom (snd r3)
             in case pick (byControlSystem selectedDefect) (fst r3) of
                  None \<Rightarrow> Inl TypeError
                | Some controlSystemSignature \<Rightarrow>
                   (case pick (byDrone selectedDefect) (fst r4) of
                      None \<Rightarrow> Inl TypeError
                    | Some droneSignature \<Rightarrow>
                        generateRounds n
                          (controlSystemDetections @
                             [\<lparr>defectType = scenarioType selectedDefect,
                               sign = signatureSign controlSystemSignature,
                               source = signatureSource controlSystemSignature,
                               location = location\<rparr>])
                          (droneDetections @
                             [\<lparr>defectType = scenarioType selectedDefect,
                               sign = signatureSign droneSignature,
                               source = signatureSource droneSignature,
                               location = location\<rparr>])
                          (snd r4))))"

text \<open>
  The function itself: the first draw decides whether there is an issue (the threshold
  \<^verbatim>\<open>0.2\<close> is the rational \<open>2/10\<close>), the second the number of rounds.
\<close>

definition generateLeakageStatus :: "Session \<Rightarrow> JsError + (LeakageDetection \<times> Session)" where
  "generateLeakageStatus s =
     (let r0 = nextRandom s;
          hasIssue = (2 / 10 < fst r0)
      in if \<not> hasIssue then
           Inr (\<lparr>controlSystem = \<lparr>sysStatus = ok, detections = []\<rparr>,
                 drone = \<lparr>sysStatus = ok, detections = []\<rparr>,
                 totalLeakages = 0\<rparr>, snd r0)
         else
           (let r1 = nextRandom (snd r0);
                numLeakages = \<lfloor>fst r1 * 3\<rfloor> + 1
            in case generateRounds (nat numLeakages) [] [] (snd r1) of
                 Inl e \<Rightarrow> Inl e
               | Inr (controlSystemDetections, droneDetections, s') \<Rightarrow>
                   Inr (\<lparr>controlSystem =
                           \<lparr>sysStatus = (if 0 < length controlSystemDetections then detected else ok),
                            detections = controlSystemDetections\<rparr>,
                         drone =
                           \<lparr>sysStatus = (if 0 < length droneDetections then detected else ok),
                            detections = droneDetections\<rparr>,
                         totalLeakages = numLeakages\<rparr>, s')))"

section \<open>The detection service\<close>

text \<open>
  \<open>DetectionService.getLeakageStatus\<close> sends one request and looks only at \<^verbatim>\<open>response.ok\<close> and
  \<^verbatim>\<open>response.statusText\<close>. The backend is a parameter: a function from the request to what
  \<^verbatim>\<open>fetch\<close> settles with, a rejection (network failure) or a response. The body is kept as
  the value \<^verbatim>\<open>response.json()\<close> resolves with, \<open>None\<close> when it rejects.
\<close>

record Request =
  url :: string
  httpMethod :: string
  headers :: "(string \<times> string) list"

record 'a Response =
  isOk :: bool
  httpStatus :: nat
  statusText :: string
  json :: "'a option"

datatype 'a FetchResult = Rejected string | Responded "'a Response"

datatype ServiceError = FetchRejected string | JsonRejected | Error string

definition API_BASE_URL :: string where
  "API_BASE_URL = ''/api/detection''"

text \<open>\<^verbatim>\<open>localStorage.getItem\<close> yields a string or \<^verbatim>\<open>null\<close>; the empty string is falsy as well.\<close>

definition getAuthHeaders :: "string option \<Rightarrow> (string \<times> string) list" where
  "getAuthHeaders token =
     [(''Content-Type'', ''application/json''),
      (''Authorization'', (if truthy token then ''Bearer '' @ the token else ''''))]"

definition getLeakageStatus :: "(Request \<Rightarrow> 'a FetchResult) \<Rightarrow> string option \<Rightarrow> ServiceError + 'a" where
  "getLeakageStatus backend token =
     (case backend \<lparr>url = API_BASE_URL @ ''/leakage-status'', httpMethod = ''GET'',
                    headers = getAuthHeaders token\<rparr> of
        Rejected reason \<Rightarrow> Inl (FetchRejected reason)
      | Responded response \<Rightarrow>
          if \<not> isOk response
          then Inl (Error (''Failed to fetch leakage status: '' @ statusText response))
          else (case json response of None \<Rightarrow> Inl JsonRejected | Some v \<Rightarrow> Inr v))"

text \<open>
  \<^verbatim>\<open>String.prototype.includes\<close>, and the test by which the pages recognise an unauthorized
  failure: \<^verbatim>\<open>errorMessage.includes('Unauthorized') || errorMessage.includes('401')\<close>.
\<close>

definition stringIncludes :: "string \<Rightarrow> string \<Rightarrow> bool" where
  "stringIncludes s t = list_ex (\<lambda>i. take (length t) (drop i s) = t) [0 ..< Suc (length s)]"

definition looksUnauthorized :: "string \<Rightarrow> bool" where
  "looksUnauthorized errorMessage = (stringIncludes errorMessage ''Unauthorized'' \<or> stringIncludes errorMessage ''401'')"

text \<open>A generator run for the closed example: every draw of \<^verbatim>\<open>Math.random()\<close> is 0.3.\<close>

definition steadyRandom :: "nat \<Rightarrow> rat" where
  "steadyRandom k = 3 / 10"

section \<open>Invariant of the grouping\<close>

text \<open>
  Every group of the map holds only detections of the snapshot, each filed under its own key.
\<close>

definition groupsFrom :: "DefectDetection set \<Rightarrow> DefectDetection set \<Rightarrow> LocationDefectMap \<Rightarrow> bool" where
  "groupsFrom C D m =
     (\<forall>(k, g) \<in> set m.
        (\<forall>c. fromControlSystem g = Some c \<longrightarrow> c \<in> C \<and> keyOf c = k) \<and>
        (\<forall>d. fromDrone g = Some d \<longrightarrow> d \<in> D \<and> keyOf d = k))"


text \<open>The comparator does not ask for the first entry to move behind the second.\<close>

definition mayPrecede :: "DateParser \<Rightarrow> DefectRegistryItem \<Rightarrow> DefectRegistryItem \<Rightarrow> bool" where
  "mayPrecede gt a b = (\<not> sortsAfter (registryOrder gt) a b)"


text \<open>
  Draws as \<^verbatim>\<open>Math.random()\<close> produces them, in the unit interval; and detection lists that
  pair up, entry by entry, on location and defect type, with types that have signatures of
  both systems.
\<close>

definition unitRandom :: "Session \<Rightarrow> bool" where
  "unitRandom s = (\<forall>k. 0 \<le> mathRandom s k \<and> mathRandom s k < 1)"

definition synchronized :: "DefectDetection list \<Rightarrow> DefectDetection list \<Rightarrow> bool" where
  "synchronized cs ds =
     (map detectionPair cs = map detectionPair ds
      \<and> defectType ` set (cs @ ds) \<subseteq> scenarioType ` set defectsWithBothSystems)"

section \<open>What the two systems report\<close>

text \<open>
  A pair of location and defect type is reported by both systems when each of the two
  detection lists of the snapshot holds a detection with that pair. The reconciler does not
  compare pairs but the strings \<^verbatim>\<open>`${location}-${defectType}`\<close>; the key of a pair is unshared
  in a snapshot when no detection with another pair is filed under the same string.
\<close>

definition reportedByBoth :: "LeakageDetection \<Rightarrow> string option \<times> string \<Rightarrow> bool" where
  "reportedByBoth leakageStatus p =
     (p \<in> detectionPair ` set (detections (controlSystem leakageStatus))
      \<and> p \<in> detectionPair ` set (detections (drone leakageStatus)))"

definition keyUnshared :: "LeakageDetection \<Rightarrow> string option \<times> string \<Rightarrow> bool" where
  "keyUnshared leakageStatus p =
     (\<forall>x \<in> set (detections (controlSystem leakageStatus) @ detections (drone leakageStatus)).
        keyOf x = detectionKey (fst p) (snd p) \<longrightarrow> detectionPair x = p)"

text \<open>
  The content of the grouping map, said without the map: under a key, the group holds the
  last detection of each system that has this key (\<^verbatim>\<open>Map.set\<close> on the same group object
  overwrites the earlier one).
\<close>

definition lastOf :: "('a \<Rightarrow> bool) \<Rightarrow> 'a list \<Rightarrow> 'a option" where
  "lastOf P xs = foldl (\<lambda>r x. if P x then Some x else r) None xs"

definition groupOf :: "DefectDetection list \<Rightarrow> DefectDetection list \<Rightarrow> string \<Rightarrow> DetectionGroup" where
  "groupOf cs ds k =
     \<lparr>fromControlSystem = lastOf (\<lambda>x. keyOf x = k) cs, fromDrone = lastOf (\<lambda>x. keyOf x = k) ds\<rparr>"

definition filed :: "DefectDetection list \<Rightarrow> DefectDetection list \<Rightarrow> LocationDefectMap \<Rightarrow> bool" where
  "filed cs ds m =
     (distinct (map fst m) \<and>
      (\<forall>k. map_of m k = (if k \<in> keyOf ` set (cs @ ds) then Some (groupOf cs ds k) else None)))"

section \<open>Clock readings and stored dates\<close>

text \<open>
  The dates of an entry parse: its \<open>lastDetected\<close>, when it has one, is a non-empty string the
  host can parse, and otherwise its \<open>detectedDate\<close> is.
\<close>

definition datesParse :: "DateParser \<Rightarrow> DefectRegistryItem \<Rightarrow> bool" where
  "datesParse getTime e =
     (case lastDetected e of
        None \<Rightarrow> getTime (detectedDate e) \<noteq> None
      | Some t \<Rightarrow> t \<noteq> [] \<and> getTime t \<noteq> None)"

text \<open>
  An entry is not later than a time \<open>t\<close> when the date the sort compares parses and, if it is
  the entry's \<open>lastDetected\<close>, is at most \<open>t\<close>. A registry is up to date for a clock reading when
  the timestamp read parses and no entry is later than it: the calls of a session happen in
  the order of their clocks, and \<open>lastDetected\<close> is only ever written from the clock. An entry
  is seen at \<open>t\<close> when its \<open>lastDetected\<close> is that time.
\<close>

definition notLaterThan :: "DateParser \<Rightarrow> int \<Rightarrow> DefectRegistryItem \<Rightarrow> bool" where
  "notLaterThan getTime t e =
     (case sortTime getTime e of None \<Rightarrow> False | Some u \<Rightarrow> hasLastDetected e \<longrightarrow> u \<le> t)"

definition upToDate :: "DateParser \<Rightarrow> Clock \<Rightarrow> DefectRegistryItem list \<Rightarrow> bool" where
  "upToDate getTime clk registry =
     (timestampRead clk \<noteq> [] \<and>
      (case getTime (timestampRead clk) of
         None \<Rightarrow> False
       | Some t \<Rightarrow> list_all (notLaterThan getTime t) registry))"

definition seenAt :: "DateParser \<Rightarrow> int \<Rightarrow> DefectRegistryItem \<Rightarrow> bool" where
  "seenAt getTime t e = (hasLastDetected e \<and> sortTime getTime e = Some t)"

text \<open>The clocks of successive calls never go back.\<close>

definition clocksRise :: "DateParser \<Rightarrow> (Clock \<times> LeakageDetection) list \<Rightarrow> bool" where
  "clocksRise getTime steps =
     sorted_wrt (\<lambda>a b. notEarlier (getTime (timestampRead (fst b))) (getTime (timestampRead (fst a)))) steps"

section \<open>Identifiers given out by the reconciler\<close>

text \<open>
  A call appends the entries it creates behind the entries it was given (\<^verbatim>\<open>push\<close>), and sorts
  and truncates afterwards. The identifiers of the created entries are therefore those of
  the merged list behind the length of the input registry, in the order of creation, whether
  or not the entry survives the truncation. Over a session they are collected call by call,
  each call working on the registry and the counter the previous one left.
\<close>

definition createdIds :: "Clock \<Rightarrow> Session \<Rightarrow> DefectRegistryItem list \<Rightarrow> LeakageDetection \<Rightarrow> string list" where
  "createdIds clk s registry leakageStatus =
     map itemId (drop (length registry) (fst (mergeDetections clk s registry leakageStatus)))"

fun issuedInSession ::
  "DateParser \<Rightarrow> Session \<Rightarrow> DefectRegistryItem list \<Rightarrow> (Clock \<times> LeakageDetection) list \<Rightarrow> string list" where
  "issuedInSession getTime s registry [] = []"
| "issuedInSession getTime s registry (step # rest) =
     (let r = updateDefectRegistryWithDetections getTime (fst step) s registry (snd step)
      in createdIds (fst step) s registry (snd step) @ issuedInSession getTime (snd r) (fst r) rest)"

text \<open>The identifier for a counter value.\<close>

definition defectIdOf :: "nat \<Rightarrow> string" where
  "defectIdOf n = ''DEF-'' @ padStart 3 (CHR ''0'') (String n)"

text \<open>
  No identifier of the registry runs ahead of the counter: where an \<open>id\<close> carries a number
  behind \<^verbatim>\<open>DEF-\<close>, the counter has reached it.
\<close>

definition withinCounter :: "Session \<Rightarrow> DefectRegistryItem list \<Rightarrow> bool" where
  "withinCounter s registry =
     list_all (\<lambda>e. case idNumber (itemId e) of None \<Rightarrow> True | Some n \<Rightarrow> n \<le> defectIdCounter s) registry"

section \<open>Facts about the risk classifier\<close>

text \<open>
  The table entry for a known type, and the fallback for every name that is neither a known
  type nor a property of \<^verbatim>\<open>Object.prototype\<close>.
\<close>

lemma getRiskLevel_fallback:
  assumes "dt \<notin> fst ` set riskMap" "dt \<notin> set objectPrototypeKeys"
  shows "getRiskLevel dt = Info fallbackRisk"
proof -
  from assms(1) have "map_of riskMap dt = None" by (simp add: map_of_eq_None_iff)
  with assms(2) show ?thesis by (simp add: getRiskLevel_def)
qed

lemma getRiskLevel_known:
  assumes "(dt, r) \<in> set riskMap"
  shows "getRiskLevel dt = Info r"
proof -
  have "distinct (map fst riskMap)" by (simp add: riskMap_def)
  with assms have "map_of riskMap dt = Some r" by simp
  then show ?thesis by (simp add: getRiskLevel_def)
qed

section \<open>Facts about sorting and searching\<close>

lemma mset_insertSorted: "mset (insertSorted f x ys) = add_mset x (mset ys)"
  by (induction ys) simp_all

lemma mset_arraySort: "mset (arraySort f xs) = mset xs"
  unfolding arraySort_def by (induction xs) (simp_all add: mset_insertSorted)


lemma set_arraySort: "set (arraySort f xs) = set xs"
  using mset_arraySort [of f xs] by (metis set_mset_mset)

lemma findIndex_None_iff: "findIndex p xs = None \<longleftrightarrow> (\<forall>x \<in> set xs. \<not> p x)"
  by (induction xs) (auto split: option.splits)

lemma findIndex_SomeD:
  "findIndex p xs = Some i \<Longrightarrow> i < length xs \<and> p (xs ! i) \<and> (\<forall>j < i. \<not> p (xs ! j))"
proof (induction xs arbitrary: i)
  case Nil
  then show ?case by simp
next
  case (Cons x xs)
  show ?case
  proof (cases "p x")
    case True
    with Cons.prems show ?thesis by simp
  next
    case False
    with Cons.prems obtain k where k: "findIndex p xs = Some k" "i = Suc k"
      by (auto split: option.splits)
    from Cons.IH [OF k(1)] False k(2) show ?thesis
      by (auto simp: less_Suc_eq_0_disj)
  qed
qed

section \<open>Facts about the grouping\<close>

lemma groupsFrom_ensureKey: "groupsFrom C D m \<Longrightarrow> groupsFrom C D (ensureKey m key)"
  by (auto simp: groupsFrom_def ensureKey_def)

lemma in_modifyAt:
  "(k, g) \<in> set (modifyAt key f m) \<Longrightarrow> \<exists>g0. (k, g0) \<in> set m \<and> g = (if k = key then f g0 else g0)"
  by (induction m) (auto simp: modifyAt_def split: if_splits)

lemma groupsFrom_addControlSystem:
  assumes "groupsFrom C D m" "c \<in> C"
  shows "groupsFrom C D (addControlSystem m c)"
proof -
  let ?key = "detectionKey (location c) (defectType c)"
  let ?f = "\<lambda>g. g\<lparr>fromControlSystem := Some c\<rparr>"
  have m': "groupsFrom C D (ensureKey m ?key)"
    by (rule groupsFrom_ensureKey [OF assms(1)])
  have "\<And>k g. (k, g) \<in> set (modifyAt ?key ?f (ensureKey m ?key)) \<Longrightarrow>
        (\<forall>c'. fromControlSystem g = Some c' \<longrightarrow> c' \<in> C \<and> keyOf c' = k) \<and>
        (\<forall>d. fromDrone g = Some d \<longrightarrow> d \<in> D \<and> keyOf d = k)"
  proof -
    fix k g assume "(k, g) \<in> set (modifyAt ?key ?f (ensureKey m ?key))"
    from in_modifyAt [OF this] obtain g0 where
      g0: "(k, g0) \<in> set (ensureKey m ?key)" "g = (if k = ?key then ?f g0 else g0)" by blast
    from m' g0(1) have old:
      "(\<forall>c'. fromControlSystem g0 = Some c' \<longrightarrow> c' \<in> C \<and> keyOf c' = k) \<and>
       (\<forall>d. fromDrone g0 = Some d \<longrightarrow> d \<in> D \<and> keyOf d = k)"
      unfolding groupsFrom_def by blast
    show "(\<forall>c'. fromControlSystem g = Some c' \<longrightarrow> c' \<in> C \<and> keyOf c' = k) \<and>
        (\<forall>d. fromDrone g = Some d \<longrightarrow> d \<in> D \<and> keyOf d = k)"
      using old g0(2) assms(2) by (cases "k = ?key") (simp_all add: keyOf_def)
  qed
  then show ?thesis
    unfolding groupsFrom_def addControlSystem_def Let_def by blast
qed

lemma groupsFrom_addDrone:
  assumes "groupsFrom C D m" "d \<in> D"
  shows "groupsFrom C D (addDrone m d)"
proof -
  let ?key = "detectionKey (location d) (defectType d)"
  let ?f = "\<lambda>g. g\<lparr>fromDrone := Some d\<rparr>"
  have m': "groupsFrom C D (ensureKey m ?key)"
    by (rule groupsFrom_ensureKey [OF assms(1)])
  have "\<And>k g. (k, g) \<in> set (modifyAt ?key ?f (ensureKey m ?key)) \<Longrightarrow>
        (\<forall>c. fromControlSystem g = Some c \<longrightarrow> c \<in> C \<and> keyOf c = k) \<and>
        (\<forall>d'. fromDrone g = Some d' \<longrightarrow> d' \<in> D \<and> keyOf d' = k)"
  proof -
    fix k g assume "(k, g) \<in> set (modifyAt ?key ?f (ensureKey m ?key))"
    from in_modifyAt [OF this] obtain g0 where
      g0: "(k, g0) \<in> set (ensureKey m ?key)" "g = (if k = ?key then ?f g0 else g0)" by blast
    from m' g0(1) have old:
      "(\<forall>c. fromControlSystem g0 = Some c \<longrightarrow> c \<in> C \<and> keyOf c = k) \<and>
       (\<forall>d'. fromDrone g0 = Some d' \<longrightarrow> d' \<in> D \<and> keyOf d' = k)"
      unfolding groupsFrom_def by blast
    show "(\<forall>c. fromControlSystem g = Some c \<longrightarrow> c \<in> C \<and> keyOf c = k) \<and>
        (\<forall>d'. fromDrone g = Some d' \<longrightarrow> d' \<in> D \<and> keyOf d' = k)"
      using old g0(2) assms(2) by (cases "k = ?key") (simp_all add: keyOf_def)
  qed
  then show ?thesis
    unfolding groupsFrom_def addDrone_def Let_def by blast
qed

lemma groupsFrom_foldl_control:
  "groupsFrom C D m \<Longrightarrow> set cs \<subseteq> C \<Longrightarrow> groupsFrom C D (foldl addControlSystem m cs)"
  by (induction cs arbitrary: m) (simp_all add: groupsFrom_addControlSystem)

lemma groupsFrom_foldl_drone:
  "groupsFrom C D m \<Longrightarrow> set ds \<subseteq> D \<Longrightarrow> groupsFrom C D (foldl addDrone m ds)"
  by (induction ds arbitrary: m) (simp_all add: groupsFrom_addDrone)

lemma groupsFrom_groupDetections:
  "groupsFrom (set (detections (controlSystem ls))) (set (detections (drone ls))) (groupDetections ls)"
  unfolding groupDetections_def
  by (intro groupsFrom_foldl_drone groupsFrom_foldl_control) (simp_all add: groupsFrom_def)

lemma group_both_keys:
  assumes "g \<in> set (map snd (groupDetections ls))"
    and "fromControlSystem g = Some c" and "fromDrone g = Some d"
  shows "c \<in> set (detections (controlSystem ls)) \<and> d \<in> set (detections (drone ls)) \<and> keyOf c = keyOf d"
proof -
  from assms(1) obtain k where "(k, g) \<in> set (groupDetections ls)" by auto
  with groupsFrom_groupDetections [of ls]
  have "(\<forall>c. fromControlSystem g = Some c \<longrightarrow> c \<in> set (detections (controlSystem ls)) \<and> keyOf c = k) \<and>
        (\<forall>d. fromDrone g = Some d \<longrightarrow> d \<in> set (detections (drone ls)) \<and> keyOf d = k)"
    unfolding groupsFrom_def by blast
  with assms(2,3) show ?thesis by simp
qed

section \<open>Facts about keys\<close>

text \<open>
  Where every detection carries a location and a defect type without a hyphen (as the six
  known types are), the string key determines the pair: a pair that only one system reports
  has its key among the keys of only one system.
\<close>

lemma detectionKey_split:
  assumes "CHR ''-'' \<notin> set t" "CHR ''-'' \<notin> set t'"
    and "l @ CHR ''-'' # t = l' @ CHR ''-'' # t'"
  shows "l = l' \<and> t = t'"
proof -
  from assms(3) have "rev t @ CHR ''-'' # rev l = rev t' @ CHR ''-'' # rev l'"
    by (metis rev.simps(2) rev_append append.assoc append_Cons append_Nil)
  moreover have "takeWhile (\<lambda>ch. ch \<noteq> CHR ''-'') (rev t @ CHR ''-'' # rev l) = rev t"
    using assms(1) by (auto simp: takeWhile_tail)
  moreover have "takeWhile (\<lambda>ch. ch \<noteq> CHR ''-'') (rev t' @ CHR ''-'' # rev l') = rev t'"
    using assms(2) by (auto simp: takeWhile_tail)
  ultimately have "rev t = rev t'" by simp
  then have t: "t = t'" by simp
  with assms(3) show ?thesis by simp
qed

lemma keyOf_inj_known:
  assumes "location c \<noteq> None" "CHR ''-'' \<notin> set (defectType c)" "CHR ''-'' \<notin> set dt"
    and "keyOf c = detectionKey (Some l) dt"
  shows "detectionPair c = (Some l, dt)"
proof -
  from assms(1) obtain lc where lc: "location c = Some lc" by auto
  from assms(4) lc have "lc @ CHR ''-'' # defectType c = l @ CHR ''-'' # dt"
    by (simp add: keyOf_def detectionKey_def)
  from detectionKey_split [OF assms(2,3) this] lc show ?thesis
    by (simp add: detectionPair_def)
qed

lemma key_hypothesis_from_pairs:
  assumes types: "\<forall>d \<in> set (detections (controlSystem ls) @ detections (drone ls)).
                     location d \<noteq> None \<and> CHR ''-'' \<notin> set (defectType d)"
    and dt: "CHR ''-'' \<notin> set dt"
    and one: "(Some l, dt) \<notin> detectionPair ` set (detections (controlSystem ls))
            \<or> (Some l, dt) \<notin> detectionPair ` set (detections (drone ls))"
  shows "detectionKey (Some l) dt \<notin> keyOf ` set (detections (controlSystem ls))
       \<or> detectionKey (Some l) dt \<notin> keyOf ` set (detections (drone ls))"
proof (rule ccontr)
  assume "\<not> ?thesis"
  then obtain c d where c: "c \<in> set (detections (controlSystem ls))" "keyOf c = detectionKey (Some l) dt"
    and d: "d \<in> set (detections (drone ls))" "keyOf d = detectionKey (Some l) dt"
    by auto
  from types c(1) have "location c \<noteq> None" "CHR ''-'' \<notin> set (defectType c)" by auto
  from keyOf_inj_known [OF this dt c(2)] c(1) have 1: "(Some l, dt) \<in> detectionPair ` set (detections (controlSystem ls))"
    by (metis imageI)
  from types d(1) have "location d \<noteq> None" "CHR ''-'' \<notin> set (defectType d)" by auto
  from keyOf_inj_known [OF this dt d(2)] d(1) have 2: "(Some l, dt) \<in> detectionPair ` set (detections (drone ls))"
    by (metis imageI)
  from 1 2 one show False by blast
qed

section \<open>Facts about the merge loop\<close>

subsection \<open>One group\<close>

lemma processGroup_skip:
  "fromControlSystem g = None \<or> fromDrone g = None \<Longrightarrow> processGroup ts cd acc g = acc"
  by (auto simp: processGroup_def split: option.splits)

lemma processGroup_update:
  assumes "fromControlSystem g = Some c" "fromDrone g = Some d"
    and "findIndex (matches c) (fst acc) = Some i"
  shows "fst (processGroup ts cd acc g) =
           (fst acc)[i := updatedDefect ts cd c d (getRiskLevel (defectType c))
                            (mathRandom (snd acc) 0) (fst acc ! i)]"
    and "defectIdCounter (snd (processGroup ts cd acc g)) = defectIdCounter (snd acc)"
  using assms by (simp_all add: processGroup_def Let_def nextRandom_def)

lemma processGroup_create:
  assumes "fromControlSystem g = Some c" "fromDrone g = Some d"
    and "findIndex (matches c) (fst acc) = None"
  shows "fst (processGroup ts cd acc g) =
           fst acc @ [newDefect ts cd c d (getRiskLevel (defectType c))
                        (fst (generateDefectId (snd acc))) (mathRandom (snd acc) 0)]"
    and "defectIdCounter (snd (processGroup ts cd acc g)) = Suc (defectIdCounter (snd acc))"
  using assms by (simp_all add: processGroup_def Let_def nextRandom_def generateDefectId_def)

lemma pairOf_updatedDefect [simp]: "pairOf (updatedDefect ts cd c d ri r old) = pairOf old"
  by (simp add: pairOf_def updatedDefect_def)

lemma itemId_updatedDefect [simp]: "itemId (updatedDefect ts cd c d ri r old) = itemId old"
  by (simp add: updatedDefect_def)

lemma pairOf_newDefect [simp]: "pairOf (newDefect ts cd c d ri i r) = detectionPair c"
  by (simp add: pairOf_def newDefect_def detectionPair_def)

lemma matches_iff: "matches c x \<longleftrightarrow> pairOf x = detectionPair c"
  by (auto simp: matches_def pairOf_def detectionPair_def)

lemma redetected_updatedDefect:
  assumes "matches c old"
  shows "redetected clk (updatedDefect (timestampRead clk) (currentDateOf clk) c d
           (getRiskLevel (defectType c)) r old)"
  using assms by (simp add: redetected_def updatedDefect_def matches_def)

lemma redetected_newDefect:
  "redetected clk (newDefect (timestampRead clk) (currentDateOf clk) c d
           (getRiskLevel (defectType c)) i r)"
  by (simp add: redetected_def newDefect_def)

text \<open>The three ways a group can act on the registry, as a case rule.\<close>

lemma processGroup_cases [case_names skip update create]:
  obtains
    (skip) "agreedPair g = None" "processGroup ts cd acc g = acc"
  | (update) c d i where "agreedPair g = Some (detectionPair c)"
      "i < length (fst acc)" "pairOf (fst acc ! i) = detectionPair c"
      "fst (processGroup ts cd acc g) =
           (fst acc)[i := updatedDefect ts cd c d (getRiskLevel (defectType c))
                            (mathRandom (snd acc) 0) (fst acc ! i)]"
      "defectIdCounter (snd (processGroup ts cd acc g)) = defectIdCounter (snd acc)"
  | (create) c d where "agreedPair g = Some (detectionPair c)"
      "detectionPair c \<notin> pairOf ` set (fst acc)"
      "fst (processGroup ts cd acc g) =
           fst acc @ [newDefect ts cd c d (getRiskLevel (defectType c))
                        (fst (generateDefectId (snd acc))) (mathRandom (snd acc) 0)]"
      "defectIdCounter (snd (processGroup ts cd acc g)) = Suc (defectIdCounter (snd acc))"
proof (cases "fromControlSystem g")
  case None
  then show ?thesis using skip processGroup_skip [of g ts cd acc] by (simp add: agreedPair_def)
next
  case (Some c)
  note c = this
  show ?thesis
  proof (cases "fromDrone g")
    case None
    then show ?thesis using skip processGroup_skip [of g ts cd acc] c by (simp add: agreedPair_def)
  next
    case (Some d)
    have ap: "agreedPair g = Some (detectionPair c)" using c Some by (simp add: agreedPair_def)
    show ?thesis
    proof (cases "findIndex (matches c) (fst acc)")
      case None
      then have "detectionPair c \<notin> pairOf ` set (fst acc)"
        by (auto simp: findIndex_None_iff matches_iff)
      with create [OF ap _ processGroup_create [OF c Some None]] show ?thesis by blast
    next
      case (Some i)
      from findIndex_SomeD [OF Some] have "i < length (fst acc)" "pairOf (fst acc ! i) = detectionPair c"
        by (simp_all add: matches_iff)
      with update [OF ap _ _ processGroup_update [OF c \<open>fromDrone g = Some d\<close> Some]] show ?thesis by blast
    qed
  qed
qed

subsection \<open>All groups\<close>

lemma filter_update_irrelevant:
  "i < length xs \<Longrightarrow> \<not> P (xs ! i) \<Longrightarrow> \<not> P y \<Longrightarrow> filter P (xs[i := y]) = filter P xs"
proof (induction xs arbitrary: i)
  case Nil
  then show ?case by simp
next
  case (Cons x xs)
  then show ?case by (cases i) simp_all
qed

lemma processGroup_other_pair:
  assumes "agreedPair g \<noteq> Some p"
  shows "filter (\<lambda>e. pairOf e = p) (fst (processGroup ts cd acc g)) = filter (\<lambda>e. pairOf e = p) (fst acc)"
proof (cases rule: processGroup_cases [of g ts cd acc])
  case skip
  then show ?thesis by simp
next
  case (update c d i)
  with assms have "detectionPair c \<noteq> p" by auto
  with update show ?thesis by (simp add: filter_update_irrelevant)
next
  case (create c d)
  with assms have "detectionPair c \<noteq> p" by auto
  with create show ?thesis by simp
qed

lemma merge_other_pair:
  "p \<notin> set (List.map_filter agreedPair gs) \<Longrightarrow>
     filter (\<lambda>e. pairOf e = p) (fst (foldl (processGroup ts cd) acc gs)) = filter (\<lambda>e. pairOf e = p) (fst acc)"
proof (induction gs arbitrary: acc)
  case Nil
  then show ?case by simp
next
  case (Cons g gs)
  from Cons.prems have g: "agreedPair g \<noteq> Some p" and gs: "p \<notin> set (List.map_filter agreedPair gs)"
    by (auto split: option.splits)
  show ?case using Cons.IH [OF gs] processGroup_other_pair [OF g] by simp
qed

lemma processGroup_pairs:
  "map pairOf (fst (processGroup ts cd acc g)) = map pairOf (fst acc) \<or>
   (\<exists>p. p \<notin> set (map pairOf (fst acc)) \<and> map pairOf (fst (processGroup ts cd acc g)) = map pairOf (fst acc) @ [p])"
proof (cases rule: processGroup_cases [of g ts cd acc])
  case skip
  then show ?thesis by simp
next
  case (update c d i)
  then show ?thesis by (simp add: map_update list_update_same_conv)
next
  case (create c d)
  then have "detectionPair c \<notin> set (map pairOf (fst acc)) \<and>
     map pairOf (fst (processGroup ts cd acc g)) = map pairOf (fst acc) @ [detectionPair c]"
    by simp
  then show ?thesis by blast
qed

lemma processGroup_distinct:
  "distinct (map pairOf (fst acc)) \<Longrightarrow> distinct (map pairOf (fst (processGroup ts cd acc g)))"
  using processGroup_pairs [of ts cd acc g] by auto

lemma merge_distinct:
  "distinct (map pairOf (fst acc)) \<Longrightarrow> distinct (map pairOf (fst (foldl (processGroup ts cd) acc gs)))"
  by (induction gs arbitrary: acc) (simp_all add: processGroup_distinct)

lemma processGroup_prefix:
  "length (fst acc) \<le> length (fst (processGroup ts cd acc g)) \<and>
   (\<forall>i < length (fst acc). itemId (fst (processGroup ts cd acc g) ! i) = itemId (fst acc ! i)
        \<and> pairOf (fst (processGroup ts cd acc g) ! i) = pairOf (fst acc ! i))"
proof (cases rule: processGroup_cases [of g ts cd acc])
  case skip
  then show ?thesis by simp
next
  case (update c d i)
  then show ?thesis by (simp add: nth_list_update)
next
  case (create c d)
  then show ?thesis by (simp add: nth_append)
qed

lemma merge_prefix:
  "length (fst acc) \<le> length (fst (foldl (processGroup ts cd) acc gs)) \<and>
   (\<forall>i < length (fst acc). itemId (fst (foldl (processGroup ts cd) acc gs) ! i) = itemId (fst acc ! i)
        \<and> pairOf (fst (foldl (processGroup ts cd) acc gs) ! i) = pairOf (fst acc ! i))"
proof (induction gs arbitrary: acc)
  case Nil
  then show ?case by simp
next
  case (Cons g gs)
  from Cons.IH [of "processGroup ts cd acc g"] processGroup_prefix [of acc ts cd g]
  show ?case by fastforce
qed

lemma processGroup_counter:
  "defectIdCounter (snd acc) \<le> defectIdCounter (snd (processGroup ts cd acc g))"
  by (cases rule: processGroup_cases [of g ts cd acc]) simp_all

lemma merge_counter:
  "defectIdCounter (snd acc) \<le> defectIdCounter (snd (foldl (processGroup ts cd) acc gs))"
proof (induction gs arbitrary: acc)
  case Nil
  then show ?case by simp
next
  case (Cons g gs)
  from Cons.IH [of "processGroup ts cd acc g"] processGroup_counter [of acc ts cd g]
  show ?case by simp
qed

lemma processGroup_touched:
  "\<forall>e \<in> set (fst (processGroup (timestampRead clk) (currentDateOf clk) acc g)).
      e \<in> set (fst acc) \<or> redetected clk e"
proof (cases rule: processGroup_cases [of g "timestampRead clk" "currentDateOf clk" acc])
  case skip
  then show ?thesis by simp
next
  case (update c d i)
  have "matches c (fst acc ! i)" using update(3) by (simp add: matches_iff)
  from redetected_updatedDefect [OF this, of clk d "mathRandom (snd acc) 0"] update(4)
  show ?thesis using set_update_subset_insert [of "fst acc" i] by auto
next
  case (create c d)
  then show ?thesis using redetected_newDefect [of clk c d] by auto
qed

lemma merge_touched:
  "\<forall>e \<in> set (fst (foldl (processGroup (timestampRead clk) (currentDateOf clk)) acc gs)).
      e \<in> set (fst acc) \<or> redetected clk e"
proof (induction gs arbitrary: acc)
  case Nil
  then show ?case by simp
next
  case (Cons g gs)
  from Cons.IH [of "processGroup (timestampRead clk) (currentDateOf clk) acc g"]
    processGroup_touched [of clk acc g]
  show ?case by auto
qed

lemma processGroup_agreed_redetected:
  assumes "distinct (map pairOf (fst acc))" and "agreedPair g = Some p"
  shows "\<forall>e \<in> set (fst (processGroup (timestampRead clk) (currentDateOf clk) acc g)).
           pairOf e = p \<longrightarrow> redetected clk e"
proof (cases rule: processGroup_cases [of g "timestampRead clk" "currentDateOf clk" acc])
  case skip
  with assms show ?thesis by simp
next
  case (update c d i)
  let ?y = "updatedDefect (timestampRead clk) (currentDateOf clk) c d (getRiskLevel (defectType c))
              (mathRandom (snd acc) 0) (fst acc ! i)"
  have p: "p = detectionPair c" using update(1) assms(2) by simp
  have "matches c (fst acc ! i)" using update(3) by (simp add: matches_iff)
  from redetected_updatedDefect [OF this] have y: "redetected clk ?y" .
  show ?thesis
  proof (intro ballI impI)
    fix e assume e: "e \<in> set (fst (processGroup (timestampRead clk) (currentDateOf clk) acc g))"
      and pe: "pairOf e = p"
    from e update(4) obtain j where j: "j < length (fst acc)" "e = (fst acc)[i := ?y] ! j"
      by (auto simp: in_set_conv_nth)
    show "redetected clk e"
    proof (cases "j = i")
      case True
      with j update(2) y show ?thesis by simp
    next
      case False
      with j have "e = fst acc ! j" by simp
      with pe p update(3) have "map pairOf (fst acc) ! j = map pairOf (fst acc) ! i"
        using j(1) update(2) by simp
      with assms(1) j(1) update(2) have "j = i"
        using nth_eq_iff_index_eq [of "map pairOf (fst acc)" j i] by simp
      with False show ?thesis by simp
    qed
  qed
next
  case (create c d)
  have p: "p = detectionPair c" using create(1) assms(2) by simp
  show ?thesis
  proof (intro ballI impI)
    fix e assume e: "e \<in> set (fst (processGroup (timestampRead clk) (currentDateOf clk) acc g))"
      and pe: "pairOf e = p"
    from pe p create(2) have "e \<notin> set (fst acc)" by (metis imageI)
    with e create(3) have "e = newDefect (timestampRead clk) (currentDateOf clk) c d
            (getRiskLevel (defectType c)) (fst (generateDefectId (snd acc))) (mathRandom (snd acc) 0)"
      by simp
    then show "redetected clk e" by (simp add: redetected_newDefect)
  qed
qed

lemma merge_agreed_redetected:
  assumes "distinct (map pairOf (fst acc))"
  shows "\<forall>e \<in> set (fst (foldl (processGroup (timestampRead clk) (currentDateOf clk)) acc gs)).
           pairOf e \<in> set (List.map_filter agreedPair gs) \<longrightarrow> redetected clk e"
  using assms
proof (induction gs arbitrary: acc)
  case Nil
  then show ?case by (simp add: List.map_filter_def)
next
  case (Cons g gs)
  let ?pg = "processGroup (timestampRead clk) (currentDateOf clk)"
  have d': "distinct (map pairOf (fst (?pg acc g)))"
    by (rule processGroup_distinct [OF Cons.prems])
  show ?case
  proof (intro ballI impI)
    fix e assume e: "e \<in> set (fst (foldl ?pg acc (g # gs)))"
      and pe: "pairOf e \<in> set (List.map_filter agreedPair (g # gs))"
    show "redetected clk e"
    proof (cases "pairOf e \<in> set (List.map_filter agreedPair gs)")
      case True
      with Cons.IH [OF d'] e show ?thesis by simp
    next
      case False
      with pe have g: "agreedPair g = Some (pairOf e)" by (auto split: option.splits)
      from merge_other_pair [OF False, of "timestampRead clk" "currentDateOf clk" "?pg acc g"] e
      have "filter (\<lambda>x. pairOf x = pairOf e) (fst (foldl ?pg acc (g # gs))) =
            filter (\<lambda>x. pairOf x = pairOf e) (fst (?pg acc g))"
        by simp
      moreover have "e \<in> set (filter (\<lambda>x. pairOf x = pairOf e) (fst (foldl ?pg acc (g # gs))))"
        using e by simp
      ultimately have "e \<in> set (filter (\<lambda>x. pairOf x = pairOf e) (fst (?pg acc g)))"
        by simp
      then have "e \<in> set (fst (?pg acc g))" by simp
      with processGroup_agreed_redetected [OF Cons.prems g, of clk] show ?thesis by blast
    qed
  qed
qed

lemma processGroup_present:
  "pairOf ` set (fst acc) \<subseteq> pairOf ` set (fst (processGroup ts cd acc g)) \<and>
   (\<forall>p. agreedPair g = Some p \<longrightarrow> p \<in> pairOf ` set (fst (processGroup ts cd acc g)))"
proof (cases rule: processGroup_cases [of g ts cd acc])
  case skip
  then show ?thesis by simp
next
  case (update c d i)
  have "map pairOf (fst (processGroup ts cd acc g)) = map pairOf (fst acc)"
    using update by (simp add: map_update list_update_same_conv)
  then have eq: "pairOf ` set (fst (processGroup ts cd acc g)) = pairOf ` set (fst acc)"
    by (metis set_map)
  have "detectionPair c \<in> pairOf ` set (fst acc)"
    using update(2,3) by (metis imageI nth_mem)
  with eq update(1) show ?thesis by simp
next
  case (create c d)
  then show ?thesis by auto
qed


section \<open>Facts about the returned registry\<close>

lemma update_fst:
  "fst (updateDefectRegistryWithDetections gt clk s reg ls) =
     take 15 (arraySort (registryOrder gt) (fst (mergeDetections clk s reg ls)))"
  by (simp add: updateDefectRegistryWithDetections_def Let_def MAX_DEFECT_REGISTRY_SIZE_def)

lemma update_snd:
  "snd (updateDefectRegistryWithDetections gt clk s reg ls) = snd (mergeDetections clk s reg ls)"
  by (simp add: updateDefectRegistryWithDetections_def Let_def)

lemma mset_take_subset: "mset (take n xs) \<subseteq># mset xs"
proof -
  have "mset xs = mset (take n xs) + mset (drop n xs)"
    by (metis append_take_drop_id mset_append)
  then show ?thesis by simp
qed

lemma output_subset: "mset (fst (updateDefectRegistryWithDetections gt clk s reg ls))
     \<subseteq># mset (fst (mergeDetections clk s reg ls))"
  using mset_take_subset [of 15 "arraySort (registryOrder gt) (fst (mergeDetections clk s reg ls))"]
  by (simp add: update_fst mset_arraySort)

lemma output_set_subset: "set (fst (updateDefectRegistryWithDetections gt clk s reg ls))
     \<subseteq> set (fst (mergeDetections clk s reg ls))"
  using output_subset [of gt clk s reg ls] by (metis set_mset_mono set_mset_mset)


lemma output_length: "length (fst (updateDefectRegistryWithDetections gt clk s reg ls)) \<le> 15"
  by (simp add: update_fst)

lemma output_distinct:
  assumes "distinct (map pairOf reg)"
  shows "distinct (map pairOf (fst (updateDefectRegistryWithDetections gt clk s reg ls)))"
proof -
  let ?m = "fst (mergeDetections clk s reg ls)"
  have "distinct (map pairOf ?m)"
    unfolding mergeDetections_def using merge_distinct [of "(reg, s)"] assms by simp
  then have "distinct (map pairOf (arraySort (registryOrder gt) ?m))"
    by (metis mset_arraySort mset_map mset_eq_imp_distinct_iff)
  then show ?thesis
    by (simp add: update_fst take_map [symmetric])
qed

lemma not_agreed:
  assumes "detectionKey loc dt \<notin> keyOf ` set (detections (controlSystem ls))
         \<or> detectionKey loc dt \<notin> keyOf ` set (detections (drone ls))"
  shows "(loc, dt) \<notin> set (agreedPairs ls)"
proof
  assume "(loc, dt) \<in> set (agreedPairs ls)"
  then have "\<exists>g \<in> set (map snd (groupDetections ls)). agreedPair g = Some (loc, dt)"
    by (force simp: agreedPairs_def List.map_filter_def)
  then obtain g where g: "g \<in> set (map snd (groupDetections ls))" "agreedPair g = Some (loc, dt)"
    by blast
  then obtain c d where cd: "fromControlSystem g = Some c" "fromDrone g = Some d" "detectionPair c = (loc, dt)"
    by (auto simp: agreedPair_def split: option.splits)
  from group_both_keys [OF g(1) cd(1,2)] have
    "c \<in> set (detections (controlSystem ls))" "d \<in> set (detections (drone ls))" "keyOf c = keyOf d"
    by simp_all
  moreover have "keyOf c = detectionKey loc dt"
    using cd(3) by (simp add: keyOf_def detectionPair_def)
  ultimately show False using assms by (metis imageI)
qed

lemma merged_eq: "fst (mergeDetections clk s reg ls) =
   fst (foldl (processGroup (timestampRead clk) (currentDateOf clk)) (reg, s) (map snd (groupDetections ls)))"
  by (simp add: mergeDetections_def)

lemma merged_other_pair:
  assumes "p \<notin> set (agreedPairs ls)"
  shows "filter (\<lambda>e. pairOf e = p) (fst (mergeDetections clk s reg ls)) = filter (\<lambda>e. pairOf e = p) reg"
  using merge_other_pair [of p "map snd (groupDetections ls)" "timestampRead clk" "currentDateOf clk" "(reg, s)"] assms
  by (simp add: merged_eq agreedPairs_def)

lemma merged_agreed_redetected:
  assumes "distinct (map pairOf reg)"
  shows "\<forall>e \<in> set (fst (mergeDetections clk s reg ls)). pairOf e \<in> set (agreedPairs ls) \<longrightarrow> redetected clk e"
  using merge_agreed_redetected [of "(reg, s)" clk "map snd (groupDetections ls)"] assms
  by (simp add: merged_eq agreedPairs_def)


lemma trace_bounded:
  "list_all (\<lambda>R. length R \<le> 15) (reconcileTrace gt s reg steps)"
  by (induction steps arbitrary: s reg) (simp_all add: Let_def output_length)

section \<open>Facts about the order of the returned registry\<close>

lemma mayPrecede_iff:
  assumes "sortTime gt a \<noteq> None" "sortTime gt b \<noteq> None"
  shows "mayPrecede gt a b \<longleftrightarrow>
     (hasLastDetected b \<longrightarrow> hasLastDetected a) \<and>
     (hasLastDetected a = hasLastDetected b \<longrightarrow> notEarlier (sortTime gt a) (sortTime gt b))"
  using assms
  by (auto simp: mayPrecede_def sortsAfter_def registryOrder_def timeDiff_def truthy_def
      hasLastDetected_def sortTime_def notEarlier_def split: option.splits if_splits)

lemma mayPrecede_total:
  assumes "sortTime gt a \<noteq> None" "sortTime gt b \<noteq> None"
  shows "mayPrecede gt a b \<or> mayPrecede gt b a"
  using assms unfolding mayPrecede_iff [OF assms] mayPrecede_iff [OF assms(2,1)]
  by (auto simp: notEarlier_def split: option.splits)

lemma mayPrecede_trans:
  assumes "sortTime gt a \<noteq> None" "sortTime gt b \<noteq> None" "sortTime gt c \<noteq> None"
    and "mayPrecede gt a b" "mayPrecede gt b c"
  shows "mayPrecede gt a c"
  using assms(4,5) unfolding mayPrecede_iff [OF assms(1,2)] mayPrecede_iff [OF assms(2,3)]
    mayPrecede_iff [OF assms(1,3)]
  using assms(1,2,3) by (auto simp: notEarlier_def split: option.splits)

lemma sorted_insertSorted:
  assumes tot: "\<And>a b. a \<in> S \<Longrightarrow> b \<in> S \<Longrightarrow> \<not> sortsAfter f a b \<or> \<not> sortsAfter f b a"
    and tr: "\<And>a b c. a \<in> S \<Longrightarrow> b \<in> S \<Longrightarrow> c \<in> S \<Longrightarrow> \<not> sortsAfter f a b \<Longrightarrow> \<not> sortsAfter f b c
                \<Longrightarrow> \<not> sortsAfter f a c"
  shows "x \<in> S \<Longrightarrow> set ys \<subseteq> S \<Longrightarrow> sorted_wrt (\<lambda>a b. \<not> sortsAfter f a b) ys
          \<Longrightarrow> sorted_wrt (\<lambda>a b. \<not> sortsAfter f a b) (insertSorted f x ys)"
proof (induction ys)
  case Nil
  then show ?case by simp
next
  case (Cons y ys)
  have seti: "set (insertSorted f x ys) = insert x (set ys)"
    using mset_insertSorted [of f x ys] by (metis set_mset_add_mset_insert set_mset_mset)
  show ?case
  proof (cases "sortsAfter f x y")
    case True
    have yx: "\<not> sortsAfter f y x" using tot [of x y] True Cons.prems by auto
    have "sorted_wrt (\<lambda>a b. \<not> sortsAfter f a b) (insertSorted f x ys)"
      using Cons by simp
    moreover have "\<forall>z \<in> set (insertSorted f x ys). \<not> sortsAfter f y z"
      using yx Cons.prems(3) by (auto simp: seti)
    ultimately show ?thesis using True by simp
  next
    case False
    have "\<forall>z \<in> set ys. \<not> sortsAfter f x z"
    proof
      fix z assume z: "z \<in> set ys"
      with Cons.prems(3) have "\<not> sortsAfter f y z" by simp
      with tr [of x y z] False Cons.prems(1,2) z show "\<not> sortsAfter f x z" by auto
    qed
    with False Cons.prems(3) show ?thesis by simp
  qed
qed

lemma sorted_arraySort:
  assumes tot: "\<And>a b. a \<in> S \<Longrightarrow> b \<in> S \<Longrightarrow> \<not> sortsAfter f a b \<or> \<not> sortsAfter f b a"
    and tr: "\<And>a b c. a \<in> S \<Longrightarrow> b \<in> S \<Longrightarrow> c \<in> S \<Longrightarrow> \<not> sortsAfter f a b \<Longrightarrow> \<not> sortsAfter f b c
                \<Longrightarrow> \<not> sortsAfter f a c"
  shows "set xs \<subseteq> S \<Longrightarrow> sorted_wrt (\<lambda>a b. \<not> sortsAfter f a b) (arraySort f xs)"
proof (induction xs)
  case Nil
  then show ?case by (simp add: arraySort_def)
next
  case (Cons x xs)
  have "set (arraySort f xs) \<subseteq> S" using Cons.prems by (simp add: set_arraySort)
  with sorted_insertSorted [of S f x "arraySort f xs", OF tot tr] Cons
  show ?case by (simp add: arraySort_def)
qed

lemma merged_parse:
  assumes "\<forall>e \<in> set reg. sortTime gt e \<noteq> None"
    and "timestampRead clk \<noteq> []" and "gt (timestampRead clk) \<noteq> None"
  shows "\<forall>e \<in> set (fst (mergeDetections clk s reg ls)). sortTime gt e \<noteq> None"
proof
  fix e assume "e \<in> set (fst (mergeDetections clk s reg ls))"
  with merge_touched [of clk "(reg, s)" "map snd (groupDetections ls)"]
  have "e \<in> set reg \<or> redetected clk e" by (simp add: merged_eq)
  then show "sortTime gt e \<noteq> None"
    using assms by (auto simp: redetected_def sortTime_def)
qed

section \<open>Facts about risk levels and identifiers\<close>

lemma processGroup_riskConsistent:
  assumes "\<forall>e \<in> set (fst acc). riskConsistent e"
  shows "\<forall>e \<in> set (fst (processGroup ts cd acc g)). riskConsistent e"
proof (cases rule: processGroup_cases [of g ts cd acc])
  case skip
  with assms show ?thesis by simp
next
  case (update c d i)
  have "riskConsistent (updatedDefect ts cd c d (getRiskLevel (defectType c)) (mathRandom (snd acc) 0) (fst acc ! i))"
    using assms update(2) by (simp add: riskConsistent_def updatedDefect_def)
  with assms update(4) show ?thesis
    using set_update_subset_insert [of "fst acc" i] by auto
next
  case (create c d)
  have "riskConsistent (newDefect ts cd c d (getRiskLevel (defectType c))
          (fst (generateDefectId (snd acc))) (mathRandom (snd acc) 0))"
    by (simp add: riskConsistent_def newDefect_def)
  with assms create(3) show ?thesis by auto
qed

lemma merge_riskConsistent:
  "\<forall>e \<in> set (fst acc). riskConsistent e \<Longrightarrow>
   \<forall>e \<in> set (fst (foldl (processGroup ts cd) acc gs)). riskConsistent e"
proof (induction gs arbitrary: acc)
  case Nil
  then show ?case by simp
next
  case (Cons g gs)
  from Cons.IH [OF processGroup_riskConsistent [OF Cons.prems, of ts cd g]]
  show ?case by simp
qed

lemma output_identity:
  assumes "distinct (map pairOf reg)"
  shows "\<forall>e0 \<in> set reg. \<forall>e \<in> set (fst (updateDefectRegistryWithDetections gt clk s reg ls)).
           pairOf e = pairOf e0 \<longrightarrow>
             itemId e = itemId e0 \<and>
             (if pairOf e0 \<in> set (agreedPairs ls)
              then detectedDate e = currentDateOf clk \<and> lastDetected e = Some (timestampRead clk)
              else e = e0)"
proof (intro ballI impI)
  let ?out = "fst (updateDefectRegistryWithDetections gt clk s reg ls)"
  let ?m = "fst (mergeDetections clk s reg ls)"
  fix e0 e assume e0: "e0 \<in> set reg" and e: "e \<in> set ?out" and p: "pairOf e = pairOf e0"
  have em: "e \<in> set ?m" using e output_set_subset [of gt clk s reg ls] by blast
  have dm: "distinct (map pairOf ?m)"
    using merge_distinct [of "(reg, s)"] assms by (simp add: merged_eq)
  from e0 obtain j where j: "j < length reg" "reg ! j = e0" by (auto simp: in_set_conv_nth)
  from em obtain k where k: "k < length ?m" "?m ! k = e" by (auto simp: in_set_conv_nth)
  from merge_prefix [of "(reg, s)" "timestampRead clk" "currentDateOf clk" "map snd (groupDetections ls)"]
  have len: "length reg \<le> length ?m"
    and pre: "itemId (?m ! j) = itemId (reg ! j)" "pairOf (?m ! j) = pairOf (reg ! j)"
    using j(1) by (simp_all add: merged_eq)
  have "map pairOf ?m ! k = map pairOf ?m ! j"
    using k j len pre p by simp
  with dm k(1) j(1) len have "k = j"
    using nth_eq_iff_index_eq [of "map pairOf ?m" k j] by simp
  with k pre j have id: "itemId e = itemId e0" by simp
  show "itemId e = itemId e0 \<and>
             (if pairOf e0 \<in> set (agreedPairs ls)
              then detectedDate e = currentDateOf clk \<and> lastDetected e = Some (timestampRead clk)
              else e = e0)"
  proof (cases "pairOf e0 \<in> set (agreedPairs ls)")
    case True
    with merged_agreed_redetected [OF assms, of clk s ls] em p
    have "redetected clk e" by simp
    with True id show ?thesis by (simp add: redetected_def)
  next
    case False
    from em p have "e \<in> set (filter (\<lambda>x. pairOf x = pairOf e0) ?m)" by simp
    with merged_other_pair [OF False, of clk s reg] have er: "e \<in> set reg" by simp
    then obtain i where i: "i < length reg" "reg ! i = e" by (auto simp: in_set_conv_nth)
    have "map pairOf reg ! i = map pairOf reg ! j"
      using i j p by simp
    then have "i = j"
      using nth_eq_iff_index_eq [OF assms, of i j] i(1) j(1) by simp
    then have "e = e0" using i(2) j(2) by simp
    with False id show ?thesis by simp
  qed
qed

lemma trace_identity:
  assumes "distinct (map pairOf reg)" and "e0 \<in> set reg"
    and "list_all (\<lambda>R. pairOf e0 \<in> pairOf ` set R) (reconcileTrace gt s reg steps)"
  shows "list_all (\<lambda>R. \<forall>e \<in> set R. pairOf e = pairOf e0 \<longrightarrow> itemId e = itemId e0)
           (reconcileTrace gt s reg steps)"
  using assms
proof (induction steps arbitrary: s reg e0)
  case Nil
  then show ?case by simp
next
  case (Cons step steps)
  let ?r = "updateDefectRegistryWithDetections gt (fst step) s reg (snd step)"
  from Cons.prems(3) have here: "pairOf e0 \<in> pairOf ` set (fst ?r)"
    and rest: "list_all (\<lambda>R. pairOf e0 \<in> pairOf ` set R) (reconcileTrace gt (snd ?r) (fst ?r) steps)"
    by (simp_all add: Let_def)
  from here obtain e1 where e1: "e1 \<in> set (fst ?r)" "pairOf e1 = pairOf e0" by auto
  have d1: "distinct (map pairOf (fst ?r))" by (rule output_distinct [OF Cons.prems(1)])
  have ids: "\<forall>e \<in> set (fst ?r). pairOf e = pairOf e0 \<longrightarrow> itemId e = itemId e0"
    using output_identity [OF Cons.prems(1), of gt "fst step" s "snd step"] Cons.prems(2) by blast
  from rest e1(2) have rest1: "list_all (\<lambda>R. pairOf e1 \<in> pairOf ` set R) (reconcileTrace gt (snd ?r) (fst ?r) steps)"
    by simp
  from Cons.IH [OF d1 e1(1) rest1] ids e1
  have "list_all (\<lambda>R. \<forall>e \<in> set R. pairOf e = pairOf e0 \<longrightarrow> itemId e = itemId e0)
           (reconcileTrace gt (snd ?r) (fst ?r) steps)"
    by simp
  with ids show ?case by (simp add: Let_def)
qed

section \<open>Facts about identifiers\<close>

lemma digit_index:
  assumes "k < 10"
  shows "findIndex (\<lambda>d. d = ''0123456789'' ! k) ''0123456789'' = Some k"
proof -
  from assms have "k = 0 \<or> k = 1 \<or> k = 2 \<or> k = 3 \<or> k = 4 \<or> k = 5 \<or> k = 6 \<or> k = 7 \<or> k = 8 \<or> k = 9"
    by arith
  then show ?thesis by (elim disjE) simp_all
qed

lemma readNat_digit:
  assumes "k < 10"
  shows "readNat acc [''0123456789'' ! k] = Some (10 * acc + k)"
  by (simp only: readNat.simps digit_index [OF assms] option.case)

lemma readNat_append:
  "readNat acc (xs @ ys) = (case readNat acc xs of None \<Rightarrow> None | Some a \<Rightarrow> readNat a ys)"
  by (induction xs arbitrary: acc) (simp_all split: option.splits)

lemma readNat_String: "readNat acc (String n) = Some (acc * 10 ^ length (String n) + n)"
proof (induction n arbitrary: acc rule: String.induct)
  case (1 n)
  show ?case
  proof (cases "n < 10")
    case True
    have s: "String n = [''0123456789'' ! n]"
      using True by (subst String.simps) (simp only: if_True)
    have "readNat acc (String n) = Some (10 * acc + n)"
      unfolding s by (rule readNat_digit [OF True])
    moreover have "length (String n) = 1" unfolding s by (simp only: list.size One_nat_def add_0)
    ultimately show ?thesis by (simp only: power_one_right mult.commute)
  next
    case False
    have m: "n mod 10 < 10" by simp
    have s: "String n = String (n div 10) @ [''0123456789'' ! (n mod 10)]"
      using False by (subst String.simps) (simp only: if_False)
    have "readNat acc (String n) =
        (case readNat acc (String (n div 10)) of None \<Rightarrow> None
          | Some a \<Rightarrow> readNat a [''0123456789'' ! (n mod 10)])"
      unfolding s by (rule readNat_append)
    also have "\<dots> = readNat (acc * 10 ^ length (String (n div 10)) + n div 10) [''0123456789'' ! (n mod 10)]"
      by (simp only: "1.IH" [OF False] option.case)
    also have "\<dots> = Some (10 * (acc * 10 ^ length (String (n div 10)) + n div 10) + n mod 10)"
      by (rule readNat_digit [OF m])
    also have "\<dots> = Some (acc * 10 ^ length (String n) + n)"
    proof -
      have "length (String n) = Suc (length (String (n div 10)))"
        unfolding s by simp
      moreover have "10 * (n div 10) + n mod 10 = n" by simp
      ultimately show ?thesis by (simp add: algebra_simps)
    qed
    finally show ?thesis .
  qed
qed

lemma readNat_zeros: "readNat 0 (replicate m (CHR ''0'') @ s) = readNat 0 s"
  by (induction m) simp_all

lemma idNumber_generated: "idNumber (''DEF-'' @ padStart 3 (CHR ''0'') (String n)) = Some n"
  by (simp add: idNumber_def padStart_def readNat_zeros readNat_String)

lemma generateDefectIds_eq:
  "fst (generateDefectIds k s) =
      map (\<lambda>n. ''DEF-'' @ padStart 3 (CHR ''0'') (String n)) [Suc (defectIdCounter s) ..< Suc (defectIdCounter s) + k]
   \<and> defectIdCounter (snd (generateDefectIds k s)) = defectIdCounter s + k"
proof (induction k arbitrary: s)
  case 0
  then show ?case by simp
next
  case (Suc k)
  let ?s1 = "snd (generateDefectId s)"
  have c1: "defectIdCounter ?s1 = Suc (defectIdCounter s)"
    and i1: "fst (generateDefectId s) = ''DEF-'' @ padStart 3 (CHR ''0'') (String (Suc (defectIdCounter s)))"
    by (simp_all add: generateDefectId_def Let_def)
  have u: "[Suc (defectIdCounter s) ..< Suc (defectIdCounter s) + Suc k] =
      Suc (defectIdCounter s) # [Suc (Suc (defectIdCounter s)) ..< Suc (Suc (defectIdCounter s)) + k]"
    by (simp add: upt_conv_Cons)
  from Suc.IH [of ?s1] have
    r: "fst (generateDefectIds k ?s1) =
      map (\<lambda>n. ''DEF-'' @ padStart 3 (CHR ''0'') (String n))
        [Suc (Suc (defectIdCounter s)) ..< Suc (Suc (defectIdCounter s)) + k]"
    and c: "defectIdCounter (snd (generateDefectIds k ?s1)) = Suc (defectIdCounter s) + k"
    by (simp_all only: c1)
  have "fst (generateDefectIds (Suc k) s) = fst (generateDefectId s) # fst (generateDefectIds k ?s1)"
    by (simp add: Let_def)
  also have "\<dots> = map (\<lambda>n. ''DEF-'' @ padStart 3 (CHR ''0'') (String n))
      [Suc (defectIdCounter s) ..< Suc (defectIdCounter s) + Suc k]"
    unfolding u r i1 by (simp only: list.map)
  finally have 1: "fst (generateDefectIds (Suc k) s) = map (\<lambda>n. ''DEF-'' @ padStart 3 (CHR ''0'') (String n))
      [Suc (defectIdCounter s) ..< Suc (defectIdCounter s) + Suc k]" .
  have 2: "defectIdCounter (snd (generateDefectIds (Suc k) s)) = defectIdCounter s + Suc k"
    using c by (simp add: Let_def)
  from 1 2 show ?case by (rule conjI)
qed

lemma update_counter:
  "defectIdCounter s \<le> defectIdCounter (snd (updateDefectRegistryWithDetections gt clk s reg ls))"
  using merge_counter [of "(reg, s)" "timestampRead clk" "currentDateOf clk" "map snd (groupDetections ls)"]
  by (simp add: update_snd mergeDetections_def)

section \<open>Facts about the generator\<close>

lemma floor_rat_numeral: "\<lfloor>(numeral a :: rat) / numeral b\<rfloor> = numeral a div numeral b"
  using floor_divide_of_int_eq [of "numeral a" "numeral b", where ?'a = rat] by simp

lemma unitRandom_next:
  assumes "unitRandom s"
  shows "0 \<le> fst (nextRandom s)" "fst (nextRandom s) < 1" "unitRandom (snd (nextRandom s))"
  using assms by (simp_all add: unitRandom_def nextRandom_def)

lemma pick_in_range:
  assumes "0 \<le> r" "r < 1" "xs \<noteq> []"
  shows "\<exists>x \<in> set xs. pick xs r = Some x"
proof -
  let ?n = "length xs"
  let ?i = "\<lfloor>r * of_nat ?n\<rfloor>"
  have n: "0 < ?n" using assms(3) by simp
  have "0 \<le> r * of_nat ?n" using assms(1) by simp
  then have lo: "0 \<le> ?i" by simp
  have "r * of_nat ?n < 1 * of_nat ?n"
    using assms(2) n by (intro mult_strict_right_mono) simp_all
  then have "r * of_nat ?n < of_int (int ?n)" by simp
  then have hi: "?i < int ?n" by (simp only: floor_less_iff)
  have "nat ?i < ?n" using nat_less_iff [OF lo, of ?n] hi by blast
  then have "xs ! nat ?i \<in> set xs" by simp
  moreover have "pick xs r = Some (xs ! nat ?i)"
    by (simp only: pick_def Let_def lo hi simp_thms if_True)
  ultimately show ?thesis by blast
qed

lemma both_nonempty:
  "sc \<in> set defectsWithBothSystems \<Longrightarrow> byControlSystem sc \<noteq> [] \<and> byDrone sc \<noteq> []"
  by (simp add: defectsWithBothSystems_def)

lemma both_exist: "defectsWithBothSystems \<noteq> []"
  by (simp add: defectsWithBothSystems_def defectScenarios_def)

lemma both_types:
  "scenarioType ` set defectsWithBothSystems =
     {''Major/Sudden Leak'', ''Minor/Gradual Leak'', ''Corrosion & Erosion'',
      ''Insulation/Coating Failure'', ''Poor Pipe Support''}"
  by (auto simp: defectsWithBothSystems_def defectScenarios_def)

lemma generateRounds_ok:
  assumes "unitRandom s" "synchronized cs ds"
  shows "\<exists>cs' ds' s'. generateRounds n cs ds s = Inr (cs', ds', s') \<and> synchronized cs' ds'
           \<and> length cs' = length cs + n \<and> length ds' = length ds + n"
  using assms
proof (induction n arbitrary: cs ds s)
  case 0
  then show ?case by simp
next
  case (Suc n)
  let ?r1 = "nextRandom s"
  let ?r2 = "nextRandom (snd ?r1)"
  let ?r3 = "nextRandom (snd ?r2)"
  let ?r4 = "nextRandom (snd ?r3)"
  note u1 = unitRandom_next [OF Suc.prems(1)]
  note u2 = unitRandom_next [OF u1(3)]
  note u3 = unitRandom_next [OF u2(3)]
  note u4 = unitRandom_next [OF u3(3)]
  from pick_in_range [OF u1(1,2) both_exist] obtain sel where
    sel: "sel \<in> set defectsWithBothSystems" "pick defectsWithBothSystems (fst ?r1) = Some sel" by blast
  from both_nonempty [OF sel(1)] have ne: "byControlSystem sel \<noteq> []" "byDrone sel \<noteq> []" by simp_all
  from pick_in_range [OF u3(1,2) ne(1)] obtain csig where
    csig: "pick (byControlSystem sel) (fst ?r3) = Some csig" by blast
  from pick_in_range [OF u4(1,2) ne(2)] obtain dsig where
    dsig: "pick (byDrone sel) (fst ?r4) = Some dsig" by blast
  let ?c = "\<lparr>defectType = scenarioType sel, sign = signatureSign csig, source = signatureSource csig,
            location = pick locations (fst ?r2)\<rparr>"
  let ?d = "\<lparr>defectType = scenarioType sel, sign = signatureSign dsig, source = signatureSource dsig,
            location = pick locations (fst ?r2)\<rparr>"
  have step: "generateRounds (Suc n) cs ds s = generateRounds n (cs @ [?c]) (ds @ [?d]) (snd ?r4)"
    using sel(2) csig dsig by (simp add: Let_def)
  have sync: "synchronized (cs @ [?c]) (ds @ [?d])"
    using Suc.prems(2) sel(1) by (auto simp: synchronized_def detectionPair_def)
  from Suc.IH [OF u4(3) sync] step show ?case by auto
qed

lemma numLeakages_range:
  assumes "0 \<le> (r::rat)" "r < 1"
  shows "1 \<le> \<lfloor>r * 3\<rfloor> + 1 \<and> \<lfloor>r * 3\<rfloor> + 1 \<le> 3"
proof -
  have "0 \<le> r * 3" using assms(1) by simp
  then have "0 \<le> \<lfloor>r * 3\<rfloor>" by simp
  moreover have "r * 3 < of_int 3" using assms(2) by simp
  then have "\<lfloor>r * 3\<rfloor> < 3" by (simp only: floor_less_iff)
  ultimately show ?thesis by linarith
qed

lemma map_eq_two:
  "map f xs = [a, b] \<Longrightarrow> length xs = 2 \<and> f (xs ! 0) = a \<and> f (xs ! 1) = b"
  by (auto simp: map_eq_Cons_conv)

text \<open>Unfolding sets for the evaluation of concrete runs.\<close>

lemmas eval_defs = updateDefectRegistryWithDetections_def mergeDetections_def groupDetections_def
  addControlSystem_def addDrone_def ensureKey_def mapHas_def modifyAt_def detectionKey_def
  processGroup_def matches_def updatedDefect_def newDefect_def generateDefectId_def nextRandom_def
  initialSession_def noRandomness_def confidenceFrom_def statusFor_def levelOf_def labelOf_def iconOf_def
  getRiskLevel_def riskMap_def objectPrototypeKeys_def fallbackRisk_def
  arraySort_def sortsAfter_def registryOrder_def truthy_def timeDiff_def
  MAX_DEFECT_REGISTRY_SIZE_def currentDateOf_def padStart_def String.simps
  snapshotOf_def leakByControl_def leakByDrone_def clockAt1000_def clockAt1030_def
  getStaticDefectRegistry_def Let_def
  fullRegistry_def createdYesterday_def minorLeakAt_def leakAtStation_def coatingByControl_def
  pairOf_def detectionPair_def keyOf_def agreedPairs_def agreedPair_def List.map_filter_def
  hasLastDetected_def sortTime_def notEarlier_def

lemmas iso_defs = isoTime_def isoDate_def isoClock_def field_def daysFromCivil_def daysInMonth_def

section \<open>Facts about what the two systems report\<close>

text \<open>
  The grouping map holds, under each key that occurs, the last detection of each system
  with that key; so the pairs the reconciler acts on are determined by the snapshot, and a
  pair that both systems report under an unshared key is one of them.
\<close>

lemma lastOf_Nil [simp]: "lastOf P [] = None"
  by (simp add: lastOf_def)

lemma lastOf_snoc [simp]: "lastOf P (xs @ [x]) = (if P x then Some x else lastOf P xs)"
  by (simp add: lastOf_def)

lemma lastOf_SomeD: "lastOf P xs = Some x \<Longrightarrow> x \<in> set xs \<and> P x"
  by (induction xs rule: rev_induct) (auto split: if_splits)

lemma lastOf_None_iff: "lastOf P xs = None \<longleftrightarrow> (\<forall>x \<in> set xs. \<not> P x)"
  by (induction xs rule: rev_induct) auto

lemma keys_modifyAt: "map fst (modifyAt key f m) = map fst m"
  by (induction m) (auto simp: modifyAt_def)

lemma map_of_modifyAt:
  "map_of (modifyAt key f m) k = (if k = key then map_option f (map_of m k) else map_of m k)"
  by (induction m) (auto simp: modifyAt_def)

lemma keys_ensureKey:
  "distinct (map fst m) \<Longrightarrow> distinct (map fst (ensureKey m key))"
  by (auto simp: ensureKey_def mapHas_def)

lemma map_of_ensureKey:
  "map_of (ensureKey m key) k =
     (case map_of m k of
        Some g \<Rightarrow> Some g
      | None \<Rightarrow> if k = key then Some \<lparr>fromControlSystem = None, fromDrone = None\<rparr> else None)"
proof (cases "mapHas m key")
  case True
  then have "map_of m key \<noteq> None" by (simp add: mapHas_def map_of_eq_None_iff)
  with True show ?thesis by (auto simp: ensureKey_def split: option.splits)
next
  case False
  then have "map_of m key = None" by (simp add: mapHas_def map_of_eq_None_iff)
  with False show ?thesis
    by (auto simp: ensureKey_def map_add_def split: option.splits)
qed

lemma filed_addControlSystem:
  assumes "filed cs [] m"
  shows "filed (cs @ [c]) [] (addControlSystem m c)"
proof -
  let ?key = "detectionKey (location c) (defectType c)"
  let ?f = "\<lambda>g. g\<lparr>fromControlSystem := Some c\<rparr>"
  from assms have d: "distinct (map fst m)"
    and m: "\<And>k. map_of m k = (if k \<in> keyOf ` set cs then Some (groupOf cs [] k) else None)"
    by (simp_all add: filed_def)
  have d': "distinct (map fst (addControlSystem m c))"
    by (simp add: addControlSystem_def Let_def keys_modifyAt keys_ensureKey [OF d])
  have "map_of (addControlSystem m c) k =
          (if k \<in> keyOf ` set (cs @ [c]) then Some (groupOf (cs @ [c]) [] k) else None)" for k
    by (auto simp: addControlSystem_def Let_def map_of_modifyAt map_of_ensureKey m groupOf_def keyOf_def)
  with d' show ?thesis by (simp add: filed_def)
qed

lemma filed_addDrone:
  assumes "filed cs ds m"
  shows "filed cs (ds @ [d]) (addDrone m d)"
proof -
  from assms have dm: "distinct (map fst m)"
    and m: "\<And>k. map_of m k = (if k \<in> keyOf ` set (cs @ ds) then Some (groupOf cs ds k) else None)"
    by (simp_all add: filed_def)
  have d': "distinct (map fst (addDrone m d))"
    by (simp add: addDrone_def Let_def keys_modifyAt keys_ensureKey [OF dm])
  have "map_of (addDrone m d) k =
          (if k \<in> keyOf ` set (cs @ (ds @ [d])) then Some (groupOf cs (ds @ [d]) k) else None)" for k
  proof (cases "k = keyOf d")
    case True
    show ?thesis
    proof (cases "k \<in> keyOf ` set (cs @ ds)")
      case True
      with \<open>k = keyOf d\<close> show ?thesis
        by (simp add: addDrone_def Let_def map_of_modifyAt map_of_ensureKey m groupOf_def keyOf_def)
    next
      case False
      then have "lastOf (\<lambda>x. keyOf x = k) cs = None" by (auto simp: lastOf_None_iff)
      with False \<open>k = keyOf d\<close> show ?thesis
        by (simp add: addDrone_def Let_def map_of_modifyAt map_of_ensureKey m groupOf_def keyOf_def)
    qed
  next
    case False
    then show ?thesis
      by (auto simp: addDrone_def Let_def map_of_modifyAt map_of_ensureKey m groupOf_def keyOf_def)
  qed
  with d' show ?thesis by (simp add: filed_def)
qed

lemma filed_control: "filed cs [] (foldl addControlSystem [] cs)"
proof (induction cs rule: rev_induct)
  case Nil
  then show ?case by (simp add: filed_def)
next
  case (snoc c cs)
  then show ?case by (simp add: filed_addControlSystem)
qed

lemma filed_drone: "filed cs ds (foldl addDrone (foldl addControlSystem [] cs) ds)"
proof (induction ds rule: rev_induct)
  case Nil
  then show ?case by (simp add: filed_control)
next
  case (snoc d ds)
  then show ?case by (simp add: filed_addDrone)
qed

lemma filed_groupDetections:
  "filed (detections (controlSystem ls)) (detections (drone ls)) (groupDetections ls)"
  by (simp add: groupDetections_def filed_drone)

lemma agreedPairs_iff:
  "p \<in> set (agreedPairs ls) \<longleftrightarrow>
     (\<exists>c d. lastOf (\<lambda>x. keyOf x = detectionKey (fst p) (snd p)) (detections (controlSystem ls)) = Some c
          \<and> lastOf (\<lambda>x. keyOf x = detectionKey (fst p) (snd p)) (detections (drone ls)) = Some d
          \<and> detectionPair c = p)"
proof -
  let ?cs = "detections (controlSystem ls)" and ?ds = "detections (drone ls)"
  let ?k = "detectionKey (fst p) (snd p)"
  from filed_groupDetections [of ls] have dk: "distinct (map fst (groupDetections ls))"
    and m: "\<And>k. map_of (groupDetections ls) k =
               (if k \<in> keyOf ` set (?cs @ ?ds) then Some (groupOf ?cs ?ds k) else None)"
    by (simp_all add: filed_def)
  have mem: "(k, g) \<in> set (groupDetections ls) \<longleftrightarrow> map_of (groupDetections ls) k = Some g" for k g
    using dk by simp
  have "p \<in> set (agreedPairs ls) \<longleftrightarrow> (\<exists>k g. (k, g) \<in> set (groupDetections ls) \<and> agreedPair g = Some p)"
    by (force simp: agreedPairs_def List.map_filter_def)
  also have "\<dots> \<longleftrightarrow> (\<exists>k. k \<in> keyOf ` set (?cs @ ?ds) \<and> agreedPair (groupOf ?cs ?ds k) = Some p)"
    unfolding mem m by auto
  also have "\<dots> \<longleftrightarrow> (\<exists>c d. lastOf (\<lambda>x. keyOf x = ?k) ?cs = Some c
          \<and> lastOf (\<lambda>x. keyOf x = ?k) ?ds = Some d \<and> detectionPair c = p)"
  proof
    assume "\<exists>k. k \<in> keyOf ` set (?cs @ ?ds) \<and> agreedPair (groupOf ?cs ?ds k) = Some p"
    then obtain k c d where k: "lastOf (\<lambda>x. keyOf x = k) ?cs = Some c"
        "lastOf (\<lambda>x. keyOf x = k) ?ds = Some d" "detectionPair c = p"
      by (auto simp: agreedPair_def groupOf_def split: option.splits)
    from lastOf_SomeD [OF k(1)] k(3) have "k = ?k"
      by (auto simp: keyOf_def detectionPair_def)
    with k show "\<exists>c d. lastOf (\<lambda>x. keyOf x = ?k) ?cs = Some c
          \<and> lastOf (\<lambda>x. keyOf x = ?k) ?ds = Some d \<and> detectionPair c = p"
      by blast
  next
    assume "\<exists>c d. lastOf (\<lambda>x. keyOf x = ?k) ?cs = Some c
          \<and> lastOf (\<lambda>x. keyOf x = ?k) ?ds = Some d \<and> detectionPair c = p"
    then obtain c d where k: "lastOf (\<lambda>x. keyOf x = ?k) ?cs = Some c"
        "lastOf (\<lambda>x. keyOf x = ?k) ?ds = Some d" "detectionPair c = p"
      by blast
    from lastOf_SomeD [OF k(1)] have "c \<in> set (?cs @ ?ds)" "keyOf c = ?k" by simp_all
    then have "?k \<in> keyOf ` set (?cs @ ?ds)" by (metis imageI)
    moreover have "agreedPair (groupOf ?cs ?ds ?k) = Some p"
      using k by (simp add: agreedPair_def groupOf_def)
    ultimately show "\<exists>k. k \<in> keyOf ` set (?cs @ ?ds) \<and> agreedPair (groupOf ?cs ?ds k) = Some p"
      by blast
  qed
  finally show ?thesis .
qed

lemma both_report_agreed:
  assumes "reportedByBoth ls p" "keyUnshared ls p"
  shows "p \<in> set (agreedPairs ls)"
proof -
  let ?cs = "detections (controlSystem ls)" and ?ds = "detections (drone ls)"
  let ?k = "detectionKey (fst p) (snd p)"
  from assms(1) obtain c0 d0 where c0: "c0 \<in> set ?cs" "detectionPair c0 = p"
    and d0: "d0 \<in> set ?ds" "detectionPair d0 = p"
    by (auto simp: reportedByBoth_def)
  have "keyOf c0 = ?k" "keyOf d0 = ?k"
    using c0(2) d0(2) by (auto simp: keyOf_def detectionPair_def)
  with c0(1) d0(1) have "lastOf (\<lambda>x. keyOf x = ?k) ?cs \<noteq> None" "lastOf (\<lambda>x. keyOf x = ?k) ?ds \<noteq> None"
    by (auto simp: lastOf_None_iff)
  then obtain c d where cd: "lastOf (\<lambda>x. keyOf x = ?k) ?cs = Some c" "lastOf (\<lambda>x. keyOf x = ?k) ?ds = Some d"
    by auto
  from lastOf_SomeD [OF cd(1)] assms(2) have "detectionPair c = p"
    by (auto simp: keyUnshared_def)
  with cd show ?thesis unfolding agreedPairs_iff by blast
qed

lemma agreed_reported:
  assumes "p \<in> set (agreedPairs ls)"
  shows "p \<in> detectionPair ` set (detections (controlSystem ls))
       \<and> detectionKey (fst p) (snd p) \<in> keyOf ` set (detections (drone ls))"
proof -
  from assms obtain c d where
    cd: "lastOf (\<lambda>x. keyOf x = detectionKey (fst p) (snd p)) (detections (controlSystem ls)) = Some c"
        "lastOf (\<lambda>x. keyOf x = detectionKey (fst p) (snd p)) (detections (drone ls)) = Some d"
        "detectionPair c = p"
    unfolding agreedPairs_iff by blast
  from lastOf_SomeD [OF cd(1)] lastOf_SomeD [OF cd(2)] cd(3) show ?thesis by force
qed

lemma keyUnshared_known:
  assumes types: "\<forall>d \<in> set (detections (controlSystem ls) @ detections (drone ls)).
                     location d \<noteq> None \<and> CHR ''-'' \<notin> set (defectType d)"
    and dt: "CHR ''-'' \<notin> set dt"
  shows "keyUnshared ls (Some l, dt)"
  unfolding keyUnshared_def
proof (intro ballI impI)
  fix x assume x: "x \<in> set (detections (controlSystem ls) @ detections (drone ls))"
    and k: "keyOf x = detectionKey (fst (Some l, dt)) (snd (Some l, dt))"
  from types x have "location x \<noteq> None" "CHR ''-'' \<notin> set (defectType x)" by auto
  from keyOf_inj_known [OF this dt] k show "detectionPair x = (Some l, dt)" by simp
qed

section \<open>Facts about entries the call has just written\<close>

text \<open>
  Entries written by the call carry the clock's timestamp. Where no entry is later than the
  clock they sort in front of all others, in the order of the merged list, so that the
  truncation to fifteen entries keeps every updated entry of a registry of at most fifteen.
\<close>

lemma seenAt_first:
  assumes "seenAt gt t a" "notLaterThan gt t b"
  shows "\<not> sortsAfter (registryOrder gt) a b"
  using assms
  by (auto simp: seenAt_def notLaterThan_def sortsAfter_def registryOrder_def timeDiff_def truthy_def
      hasLastDetected_def sortTime_def split: option.splits if_splits)

lemma behind_seenAt:
  assumes "notLaterThan gt t b" "\<not> seenAt gt t b" "seenAt gt t a"
  shows "sortsAfter (registryOrder gt) b a"
  using assms
  by (auto simp: seenAt_def notLaterThan_def sortsAfter_def registryOrder_def timeDiff_def truthy_def
      hasLastDetected_def sortTime_def split: option.splits if_splits)

lemma insertSorted_stays:
  "\<forall>y \<in> set ys. \<not> sortsAfter f x y \<Longrightarrow> insertSorted f x ys = x # ys"
  by (cases ys) simp_all

lemma insertSorted_passes:
  "\<forall>a \<in> set as. sortsAfter f x a \<Longrightarrow> insertSorted f x (as @ bs) = as @ insertSorted f x bs"
  by (induction as) simp_all

lemma arraySort_Cons: "arraySort f (x # xs) = insertSorted f x (arraySort f xs)"
  by (simp add: arraySort_def)

lemma sort_seen_first:
  assumes "\<forall>e \<in> set xs. notLaterThan gt t e"
  shows "arraySort (registryOrder gt) xs =
           filter (seenAt gt t) xs @ arraySort (registryOrder gt) (filter (\<lambda>e. \<not> seenAt gt t e) xs)"
  using assms
proof (induction xs)
  case Nil
  then show ?case by (simp add: arraySort_def)
next
  case (Cons x xs)
  let ?f = "registryOrder gt"
  let ?tops = "filter (seenAt gt t) xs"
  let ?rest = "arraySort ?f (filter (\<lambda>e. \<not> seenAt gt t e) xs)"
  from Cons have IH: "arraySort ?f xs = ?tops @ ?rest" by simp
  from Cons.prems have x: "notLaterThan gt t x" and xs: "\<forall>e \<in> set xs. notLaterThan gt t e" by simp_all
  show ?case
  proof (cases "seenAt gt t x")
    case True
    have "\<forall>y \<in> set (arraySort ?f xs). \<not> sortsAfter ?f x y"
      using seenAt_first [OF True] xs by (simp add: set_arraySort)
    from insertSorted_stays [OF this] True IH show ?thesis
      by (simp add: arraySort_Cons)
  next
    case False
    have "\<forall>a \<in> set ?tops. sortsAfter ?f x a"
      using behind_seenAt [OF x False] by simp
    from insertSorted_passes [OF this, of ?rest] False IH show ?thesis
      by (simp add: arraySort_Cons)
  qed
qed

lemma take_prefix_kept:
  "length as \<le> n \<Longrightarrow> set as \<subseteq> set (take n (as @ bs))"
  by simp

lemma upToDate_D:
  assumes "upToDate gt clk reg"
  obtains t where "timestampRead clk \<noteq> []" "gt (timestampRead clk) = Some t"
    "\<forall>e \<in> set reg. notLaterThan gt t e"
  using assms by (auto simp: upToDate_def list_all_iff split: option.splits)

lemma redetected_seenAt:
  assumes "redetected clk e" "timestampRead clk \<noteq> []" "gt (timestampRead clk) = Some t"
  shows "seenAt gt t e" "notLaterThan gt t e"
  using assms
  by (auto simp: redetected_def seenAt_def notLaterThan_def hasLastDetected_def truthy_def sortTime_def)

lemma merged_notLaterThan:
  assumes "timestampRead clk \<noteq> []" "gt (timestampRead clk) = Some t"
    "\<forall>e \<in> set reg. notLaterThan gt t e"
  shows "\<forall>e \<in> set (fst (mergeDetections clk s reg ls)). notLaterThan gt t e"
proof
  fix e assume "e \<in> set (fst (mergeDetections clk s reg ls))"
  with merge_touched [of clk "(reg, s)" "map snd (groupDetections ls)"]
  have "e \<in> set reg \<or> redetected clk e" by (simp add: merged_eq)
  then show "notLaterThan gt t e"
    using assms(3) redetected_seenAt(2) [of clk e gt t] assms(1,2) by blast
qed

text \<open>An entry of the first fifteen that the call updates is among the fifteen returned.\<close>

lemma updated_kept:
  assumes up: "timestampRead clk \<noteq> []" "gt (timestampRead clk) = Some t"
      "\<forall>e \<in> set reg. notLaterThan gt t e"
    and len: "length reg \<le> 15" and i: "i < length reg"
    and re: "redetected clk (fst (mergeDetections clk s reg ls) ! i)"
  shows "fst (mergeDetections clk s reg ls) ! i \<in> set (fst (updateDefectRegistryWithDetections gt clk s reg ls))"
proof -
  let ?m = "fst (mergeDetections clk s reg ls)"
  let ?n = "length reg"
  let ?T = "seenAt gt t"
  have lm: "?n \<le> length ?m"
    using merge_prefix [of "(reg, s)" "timestampRead clk" "currentDateOf clk" "map snd (groupDetections ls)"]
    by (simp add: merged_eq)
  have sorted: "arraySort (registryOrder gt) ?m =
      filter ?T ?m @ arraySort (registryOrder gt) (filter (\<lambda>e. \<not> ?T e) ?m)"
    by (rule sort_seen_first [OF merged_notLaterThan [OF up]])
  have "filter ?T ?m = filter ?T (take ?n ?m) @ filter ?T (drop ?n ?m)"
    by (metis append_take_drop_id filter_append)
  then have split: "arraySort (registryOrder gt) ?m =
      filter ?T (take ?n ?m) @ (filter ?T (drop ?n ?m) @ arraySort (registryOrder gt) (filter (\<lambda>e. \<not> ?T e) ?m))"
    using sorted by simp
  have "length (filter ?T (take ?n ?m)) \<le> 15"
    using length_filter_le [of ?T "take ?n ?m"] len by simp
  from take_prefix_kept [OF this] have kept:
    "set (filter ?T (take ?n ?m)) \<subseteq> set (take 15 (arraySort (registryOrder gt) ?m))"
    unfolding split .
  have "?m ! i \<in> set (take ?n ?m)"
    using i lm by (metis in_set_conv_nth length_take min.absorb2 nth_take)
  moreover have "?T (?m ! i)" using redetected_seenAt(1) [of clk "?m ! i" gt t] re up(1,2) by blast
  ultimately have "?m ! i \<in> set (filter ?T (take ?n ?m))" by simp
  with kept show ?thesis unfolding update_fst by blast
qed

lemma matched_present:
  assumes d: "distinct (map pairOf reg)" and len: "length reg \<le> 15"
    and up: "upToDate gt clk reg"
    and e0: "e0 \<in> set reg" and ag: "pairOf e0 \<in> set (agreedPairs ls)"
  shows "\<exists>e \<in> set (fst (updateDefectRegistryWithDetections gt clk s reg ls)).
           pairOf e = pairOf e0 \<and> itemId e = itemId e0 \<and> redetected clk e"
proof -
  let ?m = "fst (mergeDetections clk s reg ls)"
  from up obtain t where t: "timestampRead clk \<noteq> []" "gt (timestampRead clk) = Some t"
    "\<forall>e \<in> set reg. notLaterThan gt t e"
    by (rule upToDate_D)
  from e0 obtain i where i: "i < length reg" "reg ! i = e0" by (auto simp: in_set_conv_nth)
  from merge_prefix [of "(reg, s)" "timestampRead clk" "currentDateOf clk" "map snd (groupDetections ls)"] i
  have lm: "length reg \<le> length ?m" and id: "itemId (?m ! i) = itemId e0" and p: "pairOf (?m ! i) = pairOf e0"
    by (simp_all add: merged_eq)
  have "?m ! i \<in> set ?m" using i(1) lm by simp
  with merged_agreed_redetected [OF d, of clk s ls] p ag have re: "redetected clk (?m ! i)" by simp
  from updated_kept [OF t len i(1) re] id p re show ?thesis by blast
qed

lemma output_upToDate:
  assumes "timestampRead clk \<noteq> []" "gt (timestampRead clk) = Some t"
    "\<forall>e \<in> set reg. notLaterThan gt t e"
  shows "\<forall>e \<in> set (fst (updateDefectRegistryWithDetections gt clk s reg ls)). notLaterThan gt t e"
  using merged_notLaterThan [OF assms, of s ls] output_set_subset [of gt clk s reg ls] by blast

lemma notLaterThan_mono: "notLaterThan gt t e \<Longrightarrow> t \<le> u \<Longrightarrow> notLaterThan gt u e"
  by (auto simp: notLaterThan_def split: option.splits)

section \<open>Facts about the identifiers of created entries\<close>

lemma processGroup_created:
  assumes "n0 \<le> length (fst acc)" "c0 \<le> defectIdCounter (snd acc)"
    and "length (fst acc) = n0 + (defectIdCounter (snd acc) - c0)"
    and "map itemId (drop n0 (fst acc)) = map defectIdOf [Suc c0 ..< Suc (defectIdCounter (snd acc))]"
  shows "n0 \<le> length (fst (processGroup ts cd acc g))
       \<and> c0 \<le> defectIdCounter (snd (processGroup ts cd acc g))
       \<and> length (fst (processGroup ts cd acc g)) = n0 + (defectIdCounter (snd (processGroup ts cd acc g)) - c0)
       \<and> map itemId (drop n0 (fst (processGroup ts cd acc g)))
           = map defectIdOf [Suc c0 ..< Suc (defectIdCounter (snd (processGroup ts cd acc g)))]"
proof (cases rule: processGroup_cases [of g ts cd acc])
  case skip
  with assms show ?thesis by simp
next
  case (update c d i)
  let ?y = "updatedDefect ts cd c d (getRiskLevel (defectType c)) (mathRandom (snd acc) 0) (fst acc ! i)"
  have "map itemId ((fst acc)[i := ?y]) = (map itemId (fst acc))[i := map itemId (fst acc) ! i]"
    using update(2) by (simp add: map_update)
  then have "map itemId ((fst acc)[i := ?y]) = map itemId (fst acc)"
    by (simp only: list_update_id)
  then have "map itemId (drop n0 ((fst acc)[i := ?y])) = map itemId (drop n0 (fst acc))"
    by (simp only: drop_map [symmetric])
  with assms update show ?thesis by simp
next
  case (create c d)
  have "fst (generateDefectId (snd acc)) = defectIdOf (Suc (defectIdCounter (snd acc)))"
    by (simp add: generateDefectId_def Let_def defectIdOf_def)
  with assms create show ?thesis by (simp add: newDefect_def)
qed

lemma merge_created:
  assumes "n0 \<le> length (fst acc)" "c0 \<le> defectIdCounter (snd acc)"
    and "length (fst acc) = n0 + (defectIdCounter (snd acc) - c0)"
    and "map itemId (drop n0 (fst acc)) = map defectIdOf [Suc c0 ..< Suc (defectIdCounter (snd acc))]"
  shows "n0 \<le> length (fst (foldl (processGroup ts cd) acc gs))
       \<and> c0 \<le> defectIdCounter (snd (foldl (processGroup ts cd) acc gs))
       \<and> length (fst (foldl (processGroup ts cd) acc gs))
           = n0 + (defectIdCounter (snd (foldl (processGroup ts cd) acc gs)) - c0)
       \<and> map itemId (drop n0 (fst (foldl (processGroup ts cd) acc gs)))
           = map defectIdOf [Suc c0 ..< Suc (defectIdCounter (snd (foldl (processGroup ts cd) acc gs)))]"
  using assms
proof (induction gs arbitrary: acc)
  case Nil
  then show ?case by simp
next
  case (Cons g gs)
  from processGroup_created [OF Cons.prems, of ts cd g]
  have "n0 \<le> length (fst (processGroup ts cd acc g))"
    "c0 \<le> defectIdCounter (snd (processGroup ts cd acc g))"
    "length (fst (processGroup ts cd acc g)) = n0 + (defectIdCounter (snd (processGroup ts cd acc g)) - c0)"
    "map itemId (drop n0 (fst (processGroup ts cd acc g)))
           = map defectIdOf [Suc c0 ..< Suc (defectIdCounter (snd (processGroup ts cd acc g)))]"
    by blast+
  note r = Cons.IH [OF this]
  show ?case unfolding foldl_Cons by (rule r)
qed

lemma createdIds_eq:
  "createdIds clk s reg ls =
     map defectIdOf [Suc (defectIdCounter s) ..< Suc (defectIdCounter s) + length (createdIds clk s reg ls)]
   \<and> defectIdCounter (snd (updateDefectRegistryWithDetections gt clk s reg ls))
       = defectIdCounter s + length (createdIds clk s reg ls)"
proof -
  let ?r = "foldl (processGroup (timestampRead clk) (currentDateOf clk)) (reg, s) (map snd (groupDetections ls))"
  have i1: "length reg \<le> length (fst (reg, s))" and i2: "defectIdCounter s \<le> defectIdCounter (snd (reg, s))"
    and i3: "length (fst (reg, s)) = length reg + (defectIdCounter (snd (reg, s)) - defectIdCounter s)"
    and i4: "map itemId (drop (length reg) (fst (reg, s)))
               = map defectIdOf [Suc (defectIdCounter s) ..< Suc (defectIdCounter (snd (reg, s)))]"
    by simp_all
  note m = merge_created [OF i1 i2 i3 i4, of "timestampRead clk" "currentDateOf clk" "map snd (groupDetections ls)"]
  have 2: "defectIdCounter s \<le> defectIdCounter (snd ?r)"
    by (rule m [THEN conjunct2, THEN conjunct1])
  have 4: "map itemId (drop (length reg) (fst ?r)) = map defectIdOf [Suc (defectIdCounter s) ..< Suc (defectIdCounter (snd ?r))]"
    by (rule m [THEN conjunct2, THEN conjunct2, THEN conjunct2])
  define k where "k = defectIdCounter (snd ?r) - defectIdCounter s"
  with 2 have c': "defectIdCounter (snd ?r) = defectIdCounter s + k" by simp
  have "createdIds clk s reg ls = map itemId (drop (length reg) (fst ?r))"
    by (simp add: createdIds_def mergeDetections_def)
  also have "\<dots> = map defectIdOf [Suc (defectIdCounter s) ..< Suc (defectIdCounter s) + k]"
    unfolding 4 c' by (simp only: add_Suc)
  finally have c: "createdIds clk s reg ls = map defectIdOf [Suc (defectIdCounter s) ..< Suc (defectIdCounter s) + k]" .
  have l: "length (createdIds clk s reg ls) = k"
    unfolding c by (simp only: length_map length_upt add_diff_cancel_left')
  have "snd (updateDefectRegistryWithDetections gt clk s reg ls) = snd ?r"
    by (simp add: update_snd mergeDetections_def)
  then have d: "defectIdCounter (snd (updateDefectRegistryWithDetections gt clk s reg ls)) = defectIdCounter s + k"
    using c' by simp
  show ?thesis unfolding l by (rule conjI [OF c d])
qed


lemma output_ids:
  "set (map itemId (fst (updateDefectRegistryWithDetections gt clk s reg ls)))
     \<subseteq> set (map itemId reg) \<union> set (createdIds clk s reg ls)"
proof
  let ?m = "fst (mergeDetections clk s reg ls)"
  fix x assume "x \<in> set (map itemId (fst (updateDefectRegistryWithDetections gt clk s reg ls)))"
  then obtain e where e: "e \<in> set (fst (updateDefectRegistryWithDetections gt clk s reg ls))" "x = itemId e"
    by auto
  with output_set_subset [of gt clk s reg ls] have "e \<in> set ?m" by blast
  then obtain i where i: "i < length ?m" "?m ! i = e" by (auto simp: in_set_conv_nth)
  from merge_prefix [of "(reg, s)" "timestampRead clk" "currentDateOf clk" "map snd (groupDetections ls)"]
  have len: "length reg \<le> length ?m"
    and pre: "\<forall>j < length reg. itemId (?m ! j) = itemId (reg ! j)"
    by (simp_all add: merged_eq)
  show "x \<in> set (map itemId reg) \<union> set (createdIds clk s reg ls)"
  proof (cases "i < length reg")
    case True
    with pre have "itemId (?m ! i) = itemId (reg ! i)" by blast
    with i(2) e(2) have "x = itemId (reg ! i)" by simp
    with True show ?thesis by simp
  next
    case False
    then have "?m ! i = drop (length reg) ?m ! (i - length reg)" using i(1) by simp
    moreover have "i - length reg < length (drop (length reg) ?m)" using False i(1) by simp
    ultimately have "e \<in> set (drop (length reg) ?m)" using i(2) by (metis nth_mem)
    with e(2) show ?thesis by (simp add: createdIds_def)
  qed
qed

lemma issuedInSession_eq:
  "issuedInSession gt s reg steps =
     map defectIdOf [Suc (defectIdCounter s) ..< Suc (defectIdCounter s) + length (issuedInSession gt s reg steps)]"
proof (induction steps arbitrary: s reg)
  case Nil
  then show ?case by simp
next
  case (Cons step steps)
  let ?r = "updateDefectRegistryWithDetections gt (fst step) s reg (snd step)"
  let ?c = "defectIdCounter s"
  define k1 where "k1 = length (createdIds (fst step) s reg (snd step))"
  define k2 where "k2 = length (issuedInSession gt (snd ?r) (fst ?r) steps)"
  from createdIds_eq [of "fst step" s reg "snd step" gt]
  have a: "createdIds (fst step) s reg (snd step) = map defectIdOf [Suc ?c ..< Suc ?c + k1]"
    and c1: "defectIdCounter (snd ?r) = ?c + k1"
    unfolding k1_def by blast+
  have b: "issuedInSession gt (snd ?r) (fst ?r) steps = map defectIdOf [Suc (?c + k1) ..< Suc (?c + k1) + k2]"
    unfolding k2_def by (rule Cons.IH [where reg = "fst ?r" and s = "snd ?r", unfolded c1])
  have u: "[Suc ?c ..< Suc ?c + (k1 + k2)] = [Suc ?c ..< Suc ?c + k1] @ [Suc (?c + k1) ..< Suc (?c + k1) + k2]"
    using upt_add_eq_append [of "Suc ?c" "Suc ?c + k1" k2] by (simp add: add.assoc)
  have whole: "issuedInSession gt s reg (step # steps) = map defectIdOf [Suc ?c ..< Suc ?c + (k1 + k2)]"
    unfolding u by (simp add: Let_def a b)
  have "length (issuedInSession gt s reg (step # steps)) = k1 + k2"
    unfolding whole by (simp only: length_map length_upt add_diff_cancel_left')
  with whole show ?case by (simp only:)
qed

lemma trace_ids:
  "list_all (\<lambda>R. set (map itemId R) \<subseteq> set (map itemId reg) \<union> set (issuedInSession gt s reg steps))
     (reconcileTrace gt s reg steps)"
proof (induction steps arbitrary: s reg)
  case Nil
  then show ?case by simp
next
  case (Cons step steps)
  let ?r = "updateDefectRegistryWithDetections gt (fst step) s reg (snd step)"
  let ?a = "createdIds (fst step) s reg (snd step)"
  let ?b = "issuedInSession gt (snd ?r) (fst ?r) steps"
  have here: "set (map itemId (fst ?r)) \<subseteq> set (map itemId reg) \<union> set ?a"
    by (rule output_ids)
  from Cons.IH [where reg = "fst ?r" and s = "snd ?r"]
  have "list_all (\<lambda>R. set (map itemId R) \<subseteq> set (map itemId (fst ?r)) \<union> set ?b)
          (reconcileTrace gt (snd ?r) (fst ?r) steps)" .
  then have "list_all (\<lambda>R. set (map itemId R) \<subseteq> set (map itemId reg) \<union> set (?a @ ?b))
          (reconcileTrace gt (snd ?r) (fst ?r) steps)"
    using here by (auto simp: list_all_iff)
  moreover have "set (map itemId (fst ?r)) \<subseteq> set (map itemId reg) \<union> set (?a @ ?b)"
    using here by auto
  ultimately show ?case by (simp add: Let_def)
qed

section \<open>Facts about entries carried over several calls\<close>

lemma processGroup_derived:
  assumes "pairOf ` set reg \<subseteq> pairOf ` set (fst acc)"
    and "\<forall>e \<in> set (fst acc). pairOf e \<in> pairOf ` set reg \<longrightarrow>
           (\<exists>e0 \<in> set reg. pairOf e0 = pairOf e \<and> itemId e0 = itemId e \<and> (e = e0 \<or> redetected clk e))"
  shows "pairOf ` set reg \<subseteq> pairOf ` set (fst (processGroup (timestampRead clk) (currentDateOf clk) acc g))
    \<and> (\<forall>e \<in> set (fst (processGroup (timestampRead clk) (currentDateOf clk) acc g)).
          pairOf e \<in> pairOf ` set reg \<longrightarrow>
           (\<exists>e0 \<in> set reg. pairOf e0 = pairOf e \<and> itemId e0 = itemId e \<and> (e = e0 \<or> redetected clk e)))"
proof -
  let ?pg = "processGroup (timestampRead clk) (currentDateOf clk) acc g"
  have sub: "pairOf ` set reg \<subseteq> pairOf ` set (fst ?pg)"
    using assms(1) processGroup_present [of acc "timestampRead clk" "currentDateOf clk" g] by blast
  have "\<forall>e \<in> set (fst ?pg). pairOf e \<in> pairOf ` set reg \<longrightarrow>
           (\<exists>e0 \<in> set reg. pairOf e0 = pairOf e \<and> itemId e0 = itemId e \<and> (e = e0 \<or> redetected clk e))"
  proof (cases rule: processGroup_cases [of g "timestampRead clk" "currentDateOf clk" acc])
    case skip
    with assms(2) show ?thesis by simp
  next
    case (update c d i)
    let ?y = "updatedDefect (timestampRead clk) (currentDateOf clk) c d (getRiskLevel (defectType c))
                (mathRandom (snd acc) 0) (fst acc ! i)"
    have "matches c (fst acc ! i)" using update(3) by (simp add: matches_iff)
    from redetected_updatedDefect [OF this] have y: "redetected clk ?y" .
    have old: "fst acc ! i \<in> set (fst acc)" using update(2) by simp
    show ?thesis
    proof (intro ballI impI)
      fix e assume e: "e \<in> set (fst ?pg)" and pe: "pairOf e \<in> pairOf ` set reg"
      from e update(4) have "e = ?y \<or> e \<in> set (fst acc)"
        using set_update_subset_insert [of "fst acc" i ?y] by auto
      then show "\<exists>e0 \<in> set reg. pairOf e0 = pairOf e \<and> itemId e0 = itemId e \<and> (e = e0 \<or> redetected clk e)"
      proof
        assume ey: "e = ?y"
        with pe have "pairOf (fst acc ! i) \<in> pairOf ` set reg" by simp
        with assms(2) old obtain e0 where "e0 \<in> set reg" "pairOf e0 = pairOf (fst acc ! i)"
          "itemId e0 = itemId (fst acc ! i)" by blast
        with ey y show ?thesis by auto
      next
        assume "e \<in> set (fst acc)"
        with assms(2) pe show ?thesis by blast
      qed
    qed
  next
    case (create c d)
    let ?y = "newDefect (timestampRead clk) (currentDateOf clk) c d (getRiskLevel (defectType c))
                        (fst (generateDefectId (snd acc))) (mathRandom (snd acc) 0)"
    have "pairOf ?y \<notin> pairOf ` set reg" using create(2) assms(1) by auto
    with assms(2) create(3) show ?thesis by auto
  qed
  with sub show ?thesis by (rule conjI)
qed

lemma merge_derived:
  assumes "pairOf ` set reg \<subseteq> pairOf ` set (fst acc)"
    and "\<forall>e \<in> set (fst acc). pairOf e \<in> pairOf ` set reg \<longrightarrow>
           (\<exists>e0 \<in> set reg. pairOf e0 = pairOf e \<and> itemId e0 = itemId e \<and> (e = e0 \<or> redetected clk e))"
  shows "\<forall>e \<in> set (fst (foldl (processGroup (timestampRead clk) (currentDateOf clk)) acc gs)).
          pairOf e \<in> pairOf ` set reg \<longrightarrow>
           (\<exists>e0 \<in> set reg. pairOf e0 = pairOf e \<and> itemId e0 = itemId e \<and> (e = e0 \<or> redetected clk e))"
  using assms
proof (induction gs arbitrary: acc)
  case Nil
  then show ?case by simp
next
  case (Cons g gs)
  note step = processGroup_derived [OF Cons.prems, of g]
  note r = Cons.IH [OF step [THEN conjunct1] step [THEN conjunct2]]
  show ?case unfolding foldl_Cons by (rule r)
qed

lemma output_derived:
  "\<forall>e \<in> set (fst (updateDefectRegistryWithDetections gt clk s reg ls)).
     pairOf e \<in> pairOf ` set reg \<longrightarrow>
       (\<exists>e0 \<in> set reg. pairOf e0 = pairOf e \<and> itemId e0 = itemId e \<and> (e = e0 \<or> redetected clk e))"
proof -
  have 1: "pairOf ` set reg \<subseteq> pairOf ` set (fst (reg, s))" by simp
  have 2: "\<forall>e \<in> set (fst (reg, s)). pairOf e \<in> pairOf ` set reg \<longrightarrow>
           (\<exists>e0 \<in> set reg. pairOf e0 = pairOf e \<and> itemId e0 = itemId e \<and> (e = e0 \<or> redetected clk e))"
    by auto
  note m = merge_derived [OF 1 2, of "map snd (groupDetections ls)"]
  show ?thesis
  proof (intro ballI impI)
    fix e assume "e \<in> set (fst (updateDefectRegistryWithDetections gt clk s reg ls))"
      and p: "pairOf e \<in> pairOf ` set reg"
    with output_set_subset [of gt clk s reg ls]
    have "e \<in> set (fst (foldl (processGroup (timestampRead clk) (currentDateOf clk)) (reg, s)
                  (map snd (groupDetections ls))))"
      by (auto simp: merged_eq)
    with m p show "\<exists>e0 \<in> set reg. pairOf e0 = pairOf e \<and> itemId e0 = itemId e \<and> (e = e0 \<or> redetected clk e)"
      by blast
  qed
qed

lemma output_upToDate_later:
  assumes "upToDate gt clk reg" "upToDate gt clk' reg"
    and "notEarlier (gt (timestampRead clk')) (gt (timestampRead clk))"
  shows "upToDate gt clk' (fst (updateDefectRegistryWithDetections gt clk s reg ls))"
proof -
  from assms(1) obtain t where t: "timestampRead clk \<noteq> []" "gt (timestampRead clk) = Some t"
    "\<forall>e \<in> set reg. notLaterThan gt t e" by (rule upToDate_D)
  from assms(2) obtain t' where t': "timestampRead clk' \<noteq> []" "gt (timestampRead clk') = Some t'"
    "\<forall>e \<in> set reg. notLaterThan gt t' e" by (rule upToDate_D)
  from assms(3) t(2) t'(2) have le: "t \<le> t'" by (simp add: notEarlier_def)
  have "\<forall>e \<in> set (fst (updateDefectRegistryWithDetections gt clk s reg ls)). notLaterThan gt t' e"
  proof
    fix e assume "e \<in> set (fst (updateDefectRegistryWithDetections gt clk s reg ls))"
    with output_set_subset [of gt clk s reg ls] have "e \<in> set (fst (mergeDetections clk s reg ls))" by blast
    with merge_touched [of clk "(reg, s)" "map snd (groupDetections ls)"]
    have "e \<in> set reg \<or> redetected clk e" by (simp add: merged_eq)
    then show "notLaterThan gt t' e"
    proof
      assume "e \<in> set reg" with t'(3) show ?thesis by blast
    next
      assume "redetected clk e"
      from redetected_seenAt(2) [of clk e gt t] this t(1,2) have "notLaterThan gt t e" by blast
      from notLaterThan_mono [OF this le] show ?thesis .
    qed
  qed
  with t'(1,2) show ?thesis by (simp add: upToDate_def list_all_iff)
qed

lemma trace_redetected:
  assumes "distinct (map pairOf reg)" "length reg \<le> 15" "e0 \<in> set reg"
    and "clocksRise gt steps"
    and "list_all (\<lambda>step. upToDate gt (fst step) reg) steps"
    and "list_all (\<lambda>step. reportedByBoth (snd step) (pairOf e0) \<and> keyUnshared (snd step) (pairOf e0)) steps"
  shows "list_all (\<lambda>R. \<exists>e \<in> set R. pairOf e = pairOf e0 \<and> itemId e = itemId e0)
           (reconcileTrace gt s reg steps)"
  using assms
proof (induction steps arbitrary: s reg e0)
  case Nil
  then show ?case by simp
next
  case (Cons step steps)
  let ?r = "updateDefectRegistryWithDetections gt (fst step) s reg (snd step)"
  from Cons.prems(5) have up: "upToDate gt (fst step) reg"
    and ups: "list_all (\<lambda>st. upToDate gt (fst st) reg) steps" by simp_all
  from Cons.prems(6) have both: "reportedByBoth (snd step) (pairOf e0)" "keyUnshared (snd step) (pairOf e0)"
    and boths: "list_all (\<lambda>st. reportedByBoth (snd st) (pairOf e0) \<and> keyUnshared (snd st) (pairOf e0)) steps"
    by simp_all
  from Cons.prems(4) have rise: "clocksRise gt steps"
    and later: "\<forall>st \<in> set steps. notEarlier (gt (timestampRead (fst st))) (gt (timestampRead (fst step)))"
    by (simp_all add: clocksRise_def)
  have ag: "pairOf e0 \<in> set (agreedPairs (snd step))" by (rule both_report_agreed [OF both])
  from matched_present [OF Cons.prems(1,2) up Cons.prems(3) ag, of s]
  obtain e1 where e1: "e1 \<in> set (fst ?r)" "pairOf e1 = pairOf e0" "itemId e1 = itemId e0" by blast
  have d1: "distinct (map pairOf (fst ?r))" by (rule output_distinct [OF Cons.prems(1)])
  have l1: "length (fst ?r) \<le> 15" by (rule output_length)
  have ups1: "list_all (\<lambda>st. upToDate gt (fst st) (fst ?r)) steps"
    unfolding list_all_iff
  proof
    fix st assume st: "st \<in> set steps"
    with ups have "upToDate gt (fst st) reg" by (simp add: list_all_iff)
    from output_upToDate_later [OF up this] later st show "upToDate gt (fst st) (fst ?r)" by blast
  qed
  from boths e1(2) have boths1:
    "list_all (\<lambda>st. reportedByBoth (snd st) (pairOf e1) \<and> keyUnshared (snd st) (pairOf e1)) steps"
    by simp
  from Cons.IH [OF d1 l1 e1(1) rise ups1 boths1, of "snd ?r"] e1(2,3)
  have "list_all (\<lambda>R. \<exists>e \<in> set R. pairOf e = pairOf e0 \<and> itemId e = itemId e0)
           (reconcileTrace gt (snd ?r) (fst ?r) steps)"
    by simp
  moreover have "\<exists>e \<in> set (fst ?r). pairOf e = pairOf e0 \<and> itemId e = itemId e0"
    using e1 by blast
  ultimately show ?case by (simp add: Let_def)
qed

lemma map_eq_nth:
  "map f xs = ys \<Longrightarrow> length xs = length ys \<and> (\<forall>k < length ys. f (xs ! k) = ys ! k)"
  by (metis length_map nth_map)

section \<open>Facts about the order of parsed dates\<close>

lemma output_sorted:
  assumes "\<forall>e \<in> set reg. sortTime gt e \<noteq> None"
    and "timestampRead clk \<noteq> []" and "gt (timestampRead clk) \<noteq> None"
  shows "sorted_wrt (mayPrecede gt) (fst (updateDefectRegistryWithDetections gt clk s reg ls))"
proof -
  let ?m = "fst (mergeDetections clk s reg ls)"
  let ?S = "{e. sortTime gt e \<noteq> None}"
  have m: "set ?m \<subseteq> ?S" using merged_parse [OF assms] by blast
  have "sorted_wrt (\<lambda>a b. \<not> sortsAfter (registryOrder gt) a b) (arraySort (registryOrder gt) ?m)"
  proof (rule sorted_arraySort [of ?S, OF _ _ m])
    fix a b assume "a \<in> ?S" "b \<in> ?S"
    then show "\<not> sortsAfter (registryOrder gt) a b \<or> \<not> sortsAfter (registryOrder gt) b a"
      using mayPrecede_total [of gt a b] by (simp add: mayPrecede_def)
  next
    fix a b c assume "a \<in> ?S" "b \<in> ?S" "c \<in> ?S"
      "\<not> sortsAfter (registryOrder gt) a b" "\<not> sortsAfter (registryOrder gt) b c"
    then show "\<not> sortsAfter (registryOrder gt) a c"
      using mayPrecede_trans [of gt a b c] by (simp add: mayPrecede_def)
  qed
  then show ?thesis
    unfolding update_fst mayPrecede_def by (rule sorted_wrt_take)
qed

lemma datesParse_sortTime: "datesParse gt e \<Longrightarrow> sortTime gt e \<noteq> None"
  by (auto simp: datesParse_def sortTime_def split: option.splits)

lemma output_datesParse:
  assumes "\<forall>e \<in> set reg. datesParse gt e"
    and "timestampRead clk \<noteq> []" and "gt (timestampRead clk) \<noteq> None"
  shows "\<forall>e \<in> set (fst (updateDefectRegistryWithDetections gt clk s reg ls)). datesParse gt e"
proof
  fix e assume "e \<in> set (fst (updateDefectRegistryWithDetections gt clk s reg ls))"
  with output_set_subset [of gt clk s reg ls] have "e \<in> set (fst (mergeDetections clk s reg ls))" by blast
  with merge_touched [of clk "(reg, s)" "map snd (groupDetections ls)"]
  have "e \<in> set reg \<or> redetected clk e" by (simp add: merged_eq)
  then show "datesParse gt e"
    using assms by (auto simp: redetected_def datesParse_def)
qed

lemma mayPrecede_parsed:
  assumes "datesParse gt a" "datesParse gt b" "mayPrecede gt a b"
  shows "(lastDetected b \<noteq> None \<longrightarrow> lastDetected a \<noteq> None)
     \<and> (lastDetected a \<noteq> None \<and> lastDetected b \<noteq> None
          \<longrightarrow> notEarlier (gt (the (lastDetected a))) (gt (the (lastDetected b))))
     \<and> (lastDetected a = None \<and> lastDetected b = None
          \<longrightarrow> notEarlier (gt (detectedDate a)) (gt (detectedDate b)))"
  using assms(3) assms(1,2)
  unfolding mayPrecede_iff [OF datesParse_sortTime [OF assms(1)] datesParse_sortTime [OF assms(2)]]
  by (auto simp: datesParse_def hasLastDetected_def truthy_def sortTime_def split: option.splits)

text \<open>Unfolding set for the notions of the statements at concrete inputs.\<close>

lemmas notion_defs = reportedByBoth_def keyUnshared_def upToDate_def notLaterThan_def clocksRise_def
  datesParse_def leakAtPipeline_def

section \<open>Facts about fresh identifiers\<close>

lemma idNumber_defectIdOf: "idNumber (defectIdOf n) = Some n"
  unfolding defectIdOf_def by (rule idNumber_generated)

lemma distinct_defectIds: "distinct (map defectIdOf [a ..< b])"
proof -
  have "inj_on defectIdOf (set [a ..< b])"
  proof (rule inj_onI)
    fix x y assume "defectIdOf x = defectIdOf y"
    then have "idNumber (defectIdOf x) = idNumber (defectIdOf y)" by simp
    then show "x = y" by (simp only: idNumber_defectIdOf option.inject)
  qed
  then show ?thesis by (simp add: distinct_map)
qed

lemma generateDefectIds_defectIdOf:
  "fst (generateDefectIds k s) = map defectIdOf [Suc (defectIdCounter s) ..< Suc (defectIdCounter s) + k]"
  using generateDefectIds_eq [of k s] unfolding defectIdOf_def by (rule conjunct1)

lemma defectIds_ahead:
  assumes "withinCounter s reg" "x \<in> set (map defectIdOf [Suc (defectIdCounter s) ..< b])"
  shows "x \<notin> set (map itemId reg)"
proof
  assume "x \<in> set (map itemId reg)"
  then obtain e where e: "e \<in> set reg" "x = itemId e" by auto
  from assms(2) obtain n where n: "x = defectIdOf n" "defectIdCounter s < n" by auto
  from n(1) e(2) have "idNumber (itemId e) = Some n" by (simp add: idNumber_defectIdOf)
  with assms(1) e(1) have "n \<le> defectIdCounter s"
    by (auto simp: withinCounter_def list_all_iff)
  with n(2) show False by simp
qed

lemma created_fresh:
  assumes "withinCounter s reg"
  shows "set (createdIds clk s reg ls) \<inter> set (map itemId reg) = {}"
proof -
  obtain k where k: "createdIds clk s reg ls = map defectIdOf [Suc (defectIdCounter s) ..< Suc (defectIdCounter s) + k]"
    using createdIds_eq [of clk s reg ls] by blast
  show ?thesis unfolding k using defectIds_ahead [OF assms] by blast
qed

lemma issued_fresh:
  assumes "withinCounter s reg"
  shows "set (issuedInSession gt s reg steps) \<inter> set (map itemId reg) = {}"
proof -
  obtain k where k: "issuedInSession gt s reg steps
      = map defectIdOf [Suc (defectIdCounter s) ..< Suc (defectIdCounter s) + k]"
    using issuedInSession_eq [of gt s reg steps] by blast
  show ?thesis unfolding k using defectIds_ahead [OF assms] by blast
qed

lemma withinCounter_output:
  assumes "withinCounter s reg"
  shows "withinCounter (snd (updateDefectRegistryWithDetections gt clk s reg ls))
           (fst (updateDefectRegistryWithDetections gt clk s reg ls))"
proof -
  let ?r = "updateDefectRegistryWithDetections gt clk s reg ls"
  define k where "k = length (createdIds clk s reg ls)"
  from createdIds_eq [of clk s reg ls gt]
  have c: "createdIds clk s reg ls = map defectIdOf [Suc (defectIdCounter s) ..< Suc (defectIdCounter s) + k]"
    and s': "defectIdCounter (snd ?r) = defectIdCounter s + k"
    unfolding k_def by blast+
  have "\<forall>e \<in> set (fst ?r). case idNumber (itemId e) of None \<Rightarrow> True | Some n \<Rightarrow> n \<le> defectIdCounter (snd ?r)"
  proof
    fix e assume "e \<in> set (fst ?r)"
    then have "itemId e \<in> set (map itemId (fst ?r))" by simp
    with output_ids [of gt clk s reg ls]
    have "itemId e \<in> set (map itemId reg) \<or> itemId e \<in> set (createdIds clk s reg ls)" by blast
    then show "case idNumber (itemId e) of None \<Rightarrow> True | Some n \<Rightarrow> n \<le> defectIdCounter (snd ?r)"
    proof
      assume "itemId e \<in> set (map itemId reg)"
      then obtain e' where "e' \<in> set reg" "itemId e' = itemId e" by auto
      with assms have "case idNumber (itemId e) of None \<Rightarrow> True | Some n \<Rightarrow> n \<le> defectIdCounter s"
        by (auto simp: withinCounter_def list_all_iff)
      then show ?thesis unfolding s' by (auto split: option.splits)
    next
      assume "itemId e \<in> set (createdIds clk s reg ls)"
      then obtain n where "itemId e = defectIdOf n" "n < Suc (defectIdCounter s) + k"
        unfolding c by auto
      then show ?thesis unfolding s' by (simp add: idNumber_defectIdOf)
    qed
  qed
  then show ?thesis by (simp add: withinCounter_def list_all_iff)
qed

lemma withinCounter_initial: "withinCounter (initialSession rnd) (getInitialDefectRegistry gt)"
proof -
  have "set (getInitialDefectRegistry gt) \<subseteq> set getStaticDefectRegistry"
    unfolding getInitialDefectRegistry_def
    using set_take_subset [of MAX_DEFECT_REGISTRY_SIZE "arraySort (byDetectedDate gt) getStaticDefectRegistry"]
    by (simp add: set_arraySort)
  moreover have "\<forall>e \<in> set getStaticDefectRegistry.
      case idNumber (itemId e) of None \<Rightarrow> True | Some n \<Rightarrow> n \<le> defectIdCounter (initialSession rnd)"
    by (simp add: getStaticDefectRegistry_def idNumber_def initialSession_def)
  ultimately show ?thesis by (auto simp: withinCounter_def list_all_iff)
qed

section \<open>C1: the agreement gate\<close>




text \<open>
  The key is a concatenation, so two different pairs can share it: location \<^verbatim>\<open>A\<close> with type
  \<^verbatim>\<open>B-C\<close> and location \<^verbatim>\<open>A-B\<close> with type \<^verbatim>\<open>C\<close> both give \<^verbatim>\<open>A-B-C\<close>. Then a report of the one by
  the control system and of the other by the drone counts as agreement on the control
  system's pair. The statement above speaks of keys for this reason.
\<close>

lemma key_collision_example:
  "map detectionPair [\<lparr>defectType = ''B-C'', sign = ''s'', source = ''PT'', location = Some ''A''\<rparr>]
      = [(Some ''A'', ''B-C'')]
   \<and> map detectionPair [\<lparr>defectType = ''C'', sign = ''s'', source = ''camera'', location = Some ''A-B''\<rparr>]
      = [(Some ''A-B'', ''C'')]
   \<and> map (\<lambda>e. (itemId e, itemLocation e, itemDefectType e))
       (fst (updateDefectRegistryWithDetections isoTime clockAt1000 (initialSession noRandomness) []
         (snapshotOf [\<lparr>defectType = ''B-C'', sign = ''s'', source = ''PT'', location = Some ''A''\<rparr>]
                     [\<lparr>defectType = ''C'', sign = ''s'', source = ''camera'', location = Some ''A-B''\<rparr>])))
      = [(''DEF-101'', Some ''A'', ''B-C'')]"
  by (simp add: eval_defs)

section \<open>C2: identity fields\<close>

text \<open>
  C2 as stated fails for \<open>detectedDate\<close>: the update branch writes \<^verbatim>\<open>detectedDate: currentDate\<close>.
  The entry \<open>DEF-001\<close>, first detected on 2024-11-15, is re-detected on 2026-11-02: its \<open>id\<close>
  stays, its \<open>detectedDate\<close> becomes the day of the call.
\<close>

theorem identity_fields_counterexample:
  "map (\<lambda>e. (itemId e, detectedDate e)) (take 1 getStaticDefectRegistry) = [(''DEF-001'', ''2024-11-15'')]
   \<and> map (\<lambda>e. (itemId e, detectedDate e))
        (fst (updateDefectRegistryWithDetections isoTime clockAt1000 (initialSession noRandomness)
               (take 1 getStaticDefectRegistry) (snapshotOf [leakByControl] [leakByDrone])))
       = [(''DEF-001'', ''2026-11-02'')]"
  by (simp add: eval_defs iso_defs)

text \<open>
  C2 (amended). An entry is re-detected when both systems report its pair of location and
  defect type, under a key that no detection with another pair shares.

  \<^item> Whatever the registry and the snapshot: every returned entry whose pair occurs in the
    input registry has the \<open>id\<close> of an input entry with that pair, and is either that entry
    unchanged or carries the current date as \<open>detectedDate\<close> and the current timestamp as
    \<open>lastDetected\<close>.
  \<^item> In a registry without duplicated pairs, the returned entry for the pair of an input
    entry has that entry's \<open>id\<close>; if the entry is re-detected its \<open>detectedDate\<close> is the current
    date and its \<open>lastDetected\<close> the current timestamp; if the key of its pair occurs among the
    keys of at most one system it is the input entry itself.
  \<^item> If moreover the registry has at most fifteen entries and none is later than the clock,
    the re-detected entry is returned.
  \<^item> Consequently, over any number of calls with clocks that do not go back, each of which
    re-detects the entry, every registry of the session holds an entry for the pair, and
    every such entry has the \<open>id\<close> the entry had at the start.
\<close>

theorem identity_fields:
  "(\<forall>e \<in> set (fst (updateDefectRegistryWithDetections gt clk s reg ls)).
       pairOf e \<in> pairOf ` set reg \<longrightarrow>
         (\<exists>e0 \<in> set reg. pairOf e0 = pairOf e \<and> itemId e0 = itemId e
             \<and> (e = e0 \<or> (detectedDate e = currentDateOf clk \<and> lastDetected e = Some (timestampRead clk)))))
   \<and> (distinct (map pairOf reg) \<longrightarrow>
        (\<forall>e0 \<in> set reg. \<forall>e \<in> set (fst (updateDefectRegistryWithDetections gt clk s reg ls)).
           pairOf e = pairOf e0 \<longrightarrow>
             itemId e = itemId e0
             \<and> (reportedByBoth ls (pairOf e0) \<and> keyUnshared ls (pairOf e0)
                  \<longrightarrow> detectedDate e = currentDateOf clk \<and> lastDetected e = Some (timestampRead clk))
             \<and> (detectionKey (fst (pairOf e0)) (snd (pairOf e0)) \<notin> keyOf ` set (detections (controlSystem ls))
                  \<or> detectionKey (fst (pairOf e0)) (snd (pairOf e0)) \<notin> keyOf ` set (detections (drone ls))
                  \<longrightarrow> e = e0)))
   \<and> (distinct (map pairOf reg) \<and> length reg \<le> 15 \<and> upToDate gt clk reg \<longrightarrow>
        (\<forall>e0 \<in> set reg. reportedByBoth ls (pairOf e0) \<and> keyUnshared ls (pairOf e0) \<longrightarrow>
           (\<exists>e \<in> set (fst (updateDefectRegistryWithDetections gt clk s reg ls)).
              pairOf e = pairOf e0 \<and> itemId e = itemId e0
              \<and> detectedDate e = currentDateOf clk \<and> lastDetected e = Some (timestampRead clk))))
   \<and> (distinct (map pairOf reg) \<and> length reg \<le> 15 \<and> clocksRise gt steps
        \<and> list_all (\<lambda>step. upToDate gt (fst step) reg) steps \<longrightarrow>
        (\<forall>e0 \<in> set reg.
           list_all (\<lambda>step. reportedByBoth (snd step) (pairOf e0) \<and> keyUnshared (snd step) (pairOf e0)) steps
           \<longrightarrow> list_all (\<lambda>R. (\<exists>e \<in> set R. pairOf e = pairOf e0)
                              \<and> (\<forall>e \<in> set R. pairOf e = pairOf e0 \<longrightarrow> itemId e = itemId e0))
                  (reconcileTrace gt s reg steps)))"
proof -
  let ?out = "fst (updateDefectRegistryWithDetections gt clk s reg ls)"
  have a: "\<forall>e \<in> set ?out. pairOf e \<in> pairOf ` set reg \<longrightarrow>
         (\<exists>e0 \<in> set reg. pairOf e0 = pairOf e \<and> itemId e0 = itemId e
             \<and> (e = e0 \<or> (detectedDate e = currentDateOf clk \<and> lastDetected e = Some (timestampRead clk))))"
  proof (intro ballI impI)
    fix e assume "e \<in> set ?out" "pairOf e \<in> pairOf ` set reg"
    with output_derived [of gt clk s reg ls]
    obtain e0 where "e0 \<in> set reg" "pairOf e0 = pairOf e" "itemId e0 = itemId e" "e = e0 \<or> redetected clk e"
      by blast
    then show "\<exists>e0 \<in> set reg. pairOf e0 = pairOf e \<and> itemId e0 = itemId e
             \<and> (e = e0 \<or> (detectedDate e = currentDateOf clk \<and> lastDetected e = Some (timestampRead clk)))"
      by (auto simp: redetected_def)
  qed
  have b: "distinct (map pairOf reg) \<longrightarrow>
        (\<forall>e0 \<in> set reg. \<forall>e \<in> set ?out.
           pairOf e = pairOf e0 \<longrightarrow>
             itemId e = itemId e0
             \<and> (reportedByBoth ls (pairOf e0) \<and> keyUnshared ls (pairOf e0)
                  \<longrightarrow> detectedDate e = currentDateOf clk \<and> lastDetected e = Some (timestampRead clk))
             \<and> (detectionKey (fst (pairOf e0)) (snd (pairOf e0)) \<notin> keyOf ` set (detections (controlSystem ls))
                  \<or> detectionKey (fst (pairOf e0)) (snd (pairOf e0)) \<notin> keyOf ` set (detections (drone ls))
                  \<longrightarrow> e = e0))"
  proof (intro impI ballI)
    fix e0 e assume d: "distinct (map pairOf reg)" and e0: "e0 \<in> set reg" and e: "e \<in> set ?out"
      and p: "pairOf e = pairOf e0"
    from output_identity [OF d, of gt clk s ls] e0 e p have
      id: "itemId e = itemId e0"
      and ag: "pairOf e0 \<in> set (agreedPairs ls) \<Longrightarrow>
               detectedDate e = currentDateOf clk \<and> lastDetected e = Some (timestampRead clk)"
      and nag: "pairOf e0 \<notin> set (agreedPairs ls) \<Longrightarrow> e = e0"
      by (auto split: if_splits)
    have 1: "reportedByBoth ls (pairOf e0) \<and> keyUnshared ls (pairOf e0)
                  \<longrightarrow> detectedDate e = currentDateOf clk \<and> lastDetected e = Some (timestampRead clk)"
      using ag both_report_agreed [of ls "pairOf e0"] by blast
    have 2: "detectionKey (fst (pairOf e0)) (snd (pairOf e0)) \<notin> keyOf ` set (detections (controlSystem ls))
                  \<or> detectionKey (fst (pairOf e0)) (snd (pairOf e0)) \<notin> keyOf ` set (detections (drone ls))
                  \<longrightarrow> e = e0"
      using nag not_agreed [of "fst (pairOf e0)" "snd (pairOf e0)" ls] by simp
    from id 1 2 show "itemId e = itemId e0
             \<and> (reportedByBoth ls (pairOf e0) \<and> keyUnshared ls (pairOf e0)
                  \<longrightarrow> detectedDate e = currentDateOf clk \<and> lastDetected e = Some (timestampRead clk))
             \<and> (detectionKey (fst (pairOf e0)) (snd (pairOf e0)) \<notin> keyOf ` set (detections (controlSystem ls))
                  \<or> detectionKey (fst (pairOf e0)) (snd (pairOf e0)) \<notin> keyOf ` set (detections (drone ls))
                  \<longrightarrow> e = e0)"
      by (intro conjI)
  qed
  have c: "distinct (map pairOf reg) \<and> length reg \<le> 15 \<and> upToDate gt clk reg \<longrightarrow>
        (\<forall>e0 \<in> set reg. reportedByBoth ls (pairOf e0) \<and> keyUnshared ls (pairOf e0) \<longrightarrow>
           (\<exists>e \<in> set ?out.
              pairOf e = pairOf e0 \<and> itemId e = itemId e0
              \<and> detectedDate e = currentDateOf clk \<and> lastDetected e = Some (timestampRead clk)))"
  proof (intro impI ballI)
    fix e0 assume h: "distinct (map pairOf reg) \<and> length reg \<le> 15 \<and> upToDate gt clk reg"
      and e0: "e0 \<in> set reg" and both: "reportedByBoth ls (pairOf e0) \<and> keyUnshared ls (pairOf e0)"
    from both have ag: "pairOf e0 \<in> set (agreedPairs ls)" by (simp add: both_report_agreed)
    from h have d: "distinct (map pairOf reg)" and l: "length reg \<le> 15" and u: "upToDate gt clk reg"
      by simp_all
    from matched_present [OF d l u e0 ag, of s]
    show "\<exists>e \<in> set ?out. pairOf e = pairOf e0 \<and> itemId e = itemId e0
              \<and> detectedDate e = currentDateOf clk \<and> lastDetected e = Some (timestampRead clk)"
      by (auto simp: redetected_def)
  qed
  have d: "distinct (map pairOf reg) \<and> length reg \<le> 15 \<and> clocksRise gt steps
        \<and> list_all (\<lambda>step. upToDate gt (fst step) reg) steps \<longrightarrow>
        (\<forall>e0 \<in> set reg.
           list_all (\<lambda>step. reportedByBoth (snd step) (pairOf e0) \<and> keyUnshared (snd step) (pairOf e0)) steps
           \<longrightarrow> list_all (\<lambda>R. (\<exists>e \<in> set R. pairOf e = pairOf e0)
                              \<and> (\<forall>e \<in> set R. pairOf e = pairOf e0 \<longrightarrow> itemId e = itemId e0))
                  (reconcileTrace gt s reg steps))"
  proof (intro impI ballI)
    fix e0 assume h: "distinct (map pairOf reg) \<and> length reg \<le> 15 \<and> clocksRise gt steps
        \<and> list_all (\<lambda>step. upToDate gt (fst step) reg) steps"
      and e0: "e0 \<in> set reg"
      and both: "list_all (\<lambda>step. reportedByBoth (snd step) (pairOf e0) \<and> keyUnshared (snd step) (pairOf e0)) steps"
    from h have hd: "distinct (map pairOf reg)" and hl: "length reg \<le> 15" and hr: "clocksRise gt steps"
      and hu: "list_all (\<lambda>step. upToDate gt (fst step) reg) steps"
      by simp_all
    have held: "list_all (\<lambda>R. \<exists>e \<in> set R. pairOf e = pairOf e0 \<and> itemId e = itemId e0)
           (reconcileTrace gt s reg steps)"
      by (rule trace_redetected [OF hd hl e0 hr hu both])
    have present: "list_all (\<lambda>R. pairOf e0 \<in> pairOf ` set R) (reconcileTrace gt s reg steps)"
      unfolding list_all_iff
    proof
      fix R assume "R \<in> set (reconcileTrace gt s reg steps)"
      with held obtain e where "e \<in> set R" "pairOf e = pairOf e0" by (auto simp: list_all_iff)
      then show "pairOf e0 \<in> pairOf ` set R" by (metis imageI)
    qed
    have ids: "list_all (\<lambda>R. \<forall>e \<in> set R. pairOf e = pairOf e0 \<longrightarrow> itemId e = itemId e0)
           (reconcileTrace gt s reg steps)"
      by (rule trace_identity [OF hd e0 present])
    from held ids show "list_all (\<lambda>R. (\<exists>e \<in> set R. pairOf e = pairOf e0)
                              \<and> (\<forall>e \<in> set R. pairOf e = pairOf e0 \<longrightarrow> itemId e = itemId e0))
                  (reconcileTrace gt s reg steps)"
      by (auto simp: list_all_iff)
  qed
  show ?thesis by (rule conjI [OF a conjI [OF b conjI [OF c d]]])
qed

theorem identity_fields_witness:
  "distinct (map pairOf (take 2 getStaticDefectRegistry))
   \<and> reportedByBoth (snapshotOf [leakByControl] [leakByDrone]) (pairOf (getStaticDefectRegistry ! 0))
   \<and> keyUnshared (snapshotOf [leakByControl] [leakByDrone]) (pairOf (getStaticDefectRegistry ! 0))
   \<and> upToDate isoTime clockAt1000 (take 2 getStaticDefectRegistry)
   \<and> upToDate isoTime clockAt1030 (take 2 getStaticDefectRegistry)
   \<and> clocksRise isoTime [(clockAt1000, snapshotOf [leakByControl] [leakByDrone]),
                         (clockAt1030, snapshotOf [leakByControl] [leakByDrone])]
   \<and> map (\<lambda>e. (itemId e, detectedDate e, lastDetected e)) (take 2 getStaticDefectRegistry)
       = [(''DEF-001'', ''2024-11-15'', None), (''DEF-002'', ''2024-10-22'', None)]
   \<and> map (\<lambda>e. (itemId e, detectedDate e, lastDetected e))
        (fst (updateDefectRegistryWithDetections isoTime clockAt1000 (initialSession noRandomness)
               (take 2 getStaticDefectRegistry) (snapshotOf [leakByControl] [leakByDrone])))
       = [(''DEF-001'', ''2026-11-02'', Some ''2026-11-02T10:00:00.000Z''), (''DEF-002'', ''2024-10-22'', None)]
   \<and> map (map itemId)
        (reconcileTrace isoTime (initialSession noRandomness) (take 2 getStaticDefectRegistry)
           [(clockAt1000, snapshotOf [leakByControl] [leakByDrone]),
            (clockAt1030, snapshotOf [leakByControl] [leakByDrone])])
       = [[''DEF-001'', ''DEF-002''], [''DEF-001'', ''DEF-002'']]
   \<and> list_all (\<lambda>R. (\<exists>e \<in> set R. pairOf e = pairOf (getStaticDefectRegistry ! 0))
                   \<and> (\<forall>e \<in> set R. pairOf e = pairOf (getStaticDefectRegistry ! 0)
                          \<longrightarrow> itemId e = itemId (getStaticDefectRegistry ! 0)))
        (reconcileTrace isoTime (initialSession noRandomness) (take 2 getStaticDefectRegistry)
           [(clockAt1000, snapshotOf [leakByControl] [leakByDrone]),
            (clockAt1030, snapshotOf [leakByControl] [leakByDrone])])"
proof -
  let ?ls = "snapshotOf [leakByControl] [leakByDrone]"
  let ?steps = "[(clockAt1000, ?ls), (clockAt1030, ?ls)]"
  let ?reg = "take 2 getStaticDefectRegistry"
  let ?out = "fst (updateDefectRegistryWithDetections isoTime clockAt1000 (initialSession noRandomness) ?reg ?ls)"
  have h: "distinct (map pairOf ?reg)"
    by (simp add: getStaticDefectRegistry_def pairOf_def)
  have l: "length ?reg \<le> 15" by simp
  have e0: "getStaticDefectRegistry ! 0 \<in> set ?reg"
    by (simp add: getStaticDefectRegistry_def)
  have rb: "reportedByBoth ?ls (pairOf (getStaticDefectRegistry ! 0))"
    by (simp add: reportedByBoth_def eval_defs)
  have ku: "keyUnshared ?ls (pairOf (getStaticDefectRegistry ! 0))"
    by (simp add: keyUnshared_def eval_defs)
  have u1: "upToDate isoTime clockAt1000 ?reg"
    by (simp add: upToDate_def notLaterThan_def eval_defs iso_defs)
  have u2: "upToDate isoTime clockAt1030 ?reg"
    by (simp add: upToDate_def notLaterThan_def eval_defs iso_defs)
  have cr: "clocksRise isoTime ?steps"
    by (simp add: clocksRise_def eval_defs iso_defs)
  have before: "map (\<lambda>e. (itemId e, detectedDate e, lastDetected e)) ?reg
       = [(''DEF-001'', ''2024-11-15'', None), (''DEF-002'', ''2024-10-22'', None)]"
    by (simp add: getStaticDefectRegistry_def)
  have after: "map (\<lambda>e. (itemId e, detectedDate e, lastDetected e)) ?out
       = [(''DEF-001'', ''2026-11-02'', Some ''2026-11-02T10:00:00.000Z''), (''DEF-002'', ''2024-10-22'', None)]"
    by (simp add: eval_defs iso_defs)
  have ids: "map (map itemId) (reconcileTrace isoTime (initialSession noRandomness) ?reg ?steps)
       = [[''DEF-001'', ''DEF-002''], [''DEF-001'', ''DEF-002'']]"
    by (simp add: eval_defs iso_defs)
  have us: "list_all (\<lambda>step. upToDate isoTime (fst step) ?reg) ?steps"
    using u1 u2 by simp
  have bs: "list_all (\<lambda>step. reportedByBoth (snd step) (pairOf (getStaticDefectRegistry ! 0))
                             \<and> keyUnshared (snd step) (pairOf (getStaticDefectRegistry ! 0))) ?steps"
    using rb ku by simp
  from identity_fields [of isoTime clockAt1000 "initialSession noRandomness" ?reg ?ls ?steps,
      THEN conjunct2, THEN conjunct2, THEN conjunct2, rule_format, OF conjI [OF h conjI [OF l conjI [OF cr us]]] e0 bs]
  have many: "list_all (\<lambda>R. (\<exists>e \<in> set R. pairOf e = pairOf (getStaticDefectRegistry ! 0))
                   \<and> (\<forall>e \<in> set R. pairOf e = pairOf (getStaticDefectRegistry ! 0)
                          \<longrightarrow> itemId e = itemId (getStaticDefectRegistry ! 0)))
        (reconcileTrace isoTime (initialSession noRandomness) ?reg ?steps)" .
  show ?thesis by (rule conjI [OF h conjI [OF rb conjI [OF ku conjI [OF u1 conjI [OF u2 conjI [OF cr
      conjI [OF before conjI [OF after conjI [OF ids many]]]]]]]]])
qed

text \<open>
  Why the statement asks for an unshared key: the control system reports type \<^verbatim>\<open>C\<close> at \<^verbatim>\<open>A-B\<close>
  and then type \<^verbatim>\<open>B-C\<close> at \<^verbatim>\<open>A\<close>, the drone reports type \<^verbatim>\<open>C\<close> at \<^verbatim>\<open>A-B\<close>. All three detections are
  filed under \<^verbatim>\<open>A-B-C\<close>, the group keeps the control system's last one, and the reconciler
  creates an entry for its pair; the entry for the pair that both systems report is returned
  as it was.
\<close>

lemma shared_key_example:
  "reportedByBoth
      (snapshotOf [\<lparr>defectType = ''C'', sign = ''s'', source = ''PT'', location = Some ''A-B''\<rparr>,
                   \<lparr>defectType = ''B-C'', sign = ''s'', source = ''PT'', location = Some ''A''\<rparr>]
                  [\<lparr>defectType = ''C'', sign = ''s'', source = ''camera'', location = Some ''A-B''\<rparr>])
      (Some ''A-B'', ''C'')
   \<and> \<not> keyUnshared
      (snapshotOf [\<lparr>defectType = ''C'', sign = ''s'', source = ''PT'', location = Some ''A-B''\<rparr>,
                   \<lparr>defectType = ''B-C'', sign = ''s'', source = ''PT'', location = Some ''A''\<rparr>]
                  [\<lparr>defectType = ''C'', sign = ''s'', source = ''camera'', location = Some ''A-B''\<rparr>])
      (Some ''A-B'', ''C'')
   \<and> map (\<lambda>e. (itemId e, pairOf e, lastDetected e))
       (fst (updateDefectRegistryWithDetections isoTime clockAt1000 (initialSession noRandomness)
         [(getStaticDefectRegistry ! 0)\<lparr>itemLocation := Some ''A-B'', itemDefectType := ''C''\<rparr>]
         (snapshotOf [\<lparr>defectType = ''C'', sign = ''s'', source = ''PT'', location = Some ''A-B''\<rparr>,
                      \<lparr>defectType = ''B-C'', sign = ''s'', source = ''PT'', location = Some ''A''\<rparr>]
                     [\<lparr>defectType = ''C'', sign = ''s'', source = ''camera'', location = Some ''A-B''\<rparr>])))
      = [(''DEF-101'', (Some ''A'', ''B-C''), Some ''2026-11-02T10:00:00.000Z''),
         (''DEF-001'', (Some ''A-B'', ''C''), None)]"
  by (simp add: notion_defs eval_defs iso_defs)

section \<open>C3: bounded size\<close>

text \<open>
  C3. Whatever the registry and the snapshot, the returned registry has at most fifteen
  entries, and so has the initial registry; hence in a session that starts from the initial
  registry the registry has at most fifteen entries after every call.
\<close>

theorem bounded_size:
  "length (fst (updateDefectRegistryWithDetections gt clk s reg ls)) \<le> 15
   \<and> length (getInitialDefectRegistry gt) \<le> 15
   \<and> list_all (\<lambda>R. length R \<le> 15) (reconcileTrace gt s (getInitialDefectRegistry gt) steps)
   \<and> MAX_DEFECT_REGISTRY_SIZE = 15"
  by (simp add: output_length trace_bounded getInitialDefectRegistry_def MAX_DEFECT_REGISTRY_SIZE_def)

section \<open>C4: the order of the returned registry\<close>

text \<open>
  C4. The stored dates are timestamps: every \<open>lastDetected\<close> of the input registry is a
  non-empty string that parses, every entry without one has a \<open>detectedDate\<close> that parses, and
  so does the timestamp the call reads from the clock. Then in the returned list every entry
  with a \<open>lastDetected\<close> precedes every entry without one; among the entries that have one the
  times of \<open>lastDetected\<close> never increase, and among those that have none the times of
  \<open>detectedDate\<close> never increase.
\<close>

theorem registry_ordering:
  assumes "\<forall>e \<in> set reg. datesParse gt e"
    and "timestampRead clk \<noteq> []" and "gt (timestampRead clk) \<noteq> None"
  shows "\<forall>i j. i < j \<and> j < length (fst (updateDefectRegistryWithDetections gt clk s reg ls)) \<longrightarrow>
     (lastDetected (fst (updateDefectRegistryWithDetections gt clk s reg ls) ! j) \<noteq> None
        \<longrightarrow> lastDetected (fst (updateDefectRegistryWithDetections gt clk s reg ls) ! i) \<noteq> None)
     \<and> (lastDetected (fst (updateDefectRegistryWithDetections gt clk s reg ls) ! i) \<noteq> None
         \<and> lastDetected (fst (updateDefectRegistryWithDetections gt clk s reg ls) ! j) \<noteq> None
        \<longrightarrow> notEarlier (gt (the (lastDetected (fst (updateDefectRegistryWithDetections gt clk s reg ls) ! i))))
                         (gt (the (lastDetected (fst (updateDefectRegistryWithDetections gt clk s reg ls) ! j)))))
     \<and> (lastDetected (fst (updateDefectRegistryWithDetections gt clk s reg ls) ! i) = None
         \<and> lastDetected (fst (updateDefectRegistryWithDetections gt clk s reg ls) ! j) = None
        \<longrightarrow> notEarlier (gt (detectedDate (fst (updateDefectRegistryWithDetections gt clk s reg ls) ! i)))
                         (gt (detectedDate (fst (updateDefectRegistryWithDetections gt clk s reg ls) ! j))))"
proof (intro allI impI)
  let ?out = "fst (updateDefectRegistryWithDetections gt clk s reg ls)"
  fix i j assume ij: "i < j \<and> j < length ?out"
  have "\<forall>e \<in> set reg. sortTime gt e \<noteq> None"
    using assms(1) datesParse_sortTime by blast
  from output_sorted [OF this assms(2,3), of s ls] ij
  have mp: "mayPrecede gt (?out ! i) (?out ! j)"
    by (simp add: sorted_wrt_iff_nth_less)
  have "datesParse gt (?out ! i)" "datesParse gt (?out ! j)"
    using output_datesParse [OF assms, of s ls] ij by simp_all
  from mayPrecede_parsed [OF this mp]
  show "(lastDetected (?out ! j) \<noteq> None \<longrightarrow> lastDetected (?out ! i) \<noteq> None)
     \<and> (lastDetected (?out ! i) \<noteq> None \<and> lastDetected (?out ! j) \<noteq> None
        \<longrightarrow> notEarlier (gt (the (lastDetected (?out ! i)))) (gt (the (lastDetected (?out ! j)))))
     \<and> (lastDetected (?out ! i) = None \<and> lastDetected (?out ! j) = None
        \<longrightarrow> notEarlier (gt (detectedDate (?out ! i))) (gt (detectedDate (?out ! j))))" .
qed

text \<open>
  A registry of four entries, one of them created the day before, meets a snapshot in which
  both systems report the major leak of \<open>DEF-001\<close>: the updated entry comes first, the entry
  of the day before second, and the two entries that were never detected again follow by
  \<open>detectedDate\<close>.
\<close>

theorem registry_ordering_witness:
  "map (datesParse isoTime)
      [getStaticDefectRegistry ! 2, getStaticDefectRegistry ! 1, getStaticDefectRegistry ! 0,
       createdYesterday ''DEF-101'' ''Branch Line'']
      = [True, True, True, True]
   \<and> isoTime (timestampRead clockAt1000) = Some 1793613600000
   \<and> map (\<lambda>e. (itemId e, lastDetected e, detectedDate e))
       (fst (updateDefectRegistryWithDetections isoTime clockAt1000 (initialSession noRandomness)
          [getStaticDefectRegistry ! 2, getStaticDefectRegistry ! 1, getStaticDefectRegistry ! 0,
           createdYesterday ''DEF-101'' ''Branch Line'']
          (snapshotOf [leakByControl] [leakByDrone])))
      = [(''DEF-001'', Some ''2026-11-02T10:00:00.000Z'', ''2026-11-02''),
         (''DEF-101'', Some ''2026-11-01T09:00:00.000Z'', ''2026-11-01''),
         (''DEF-002'', None, ''2024-10-22''),
         (''DEF-003'', None, ''2024-09-18'')]
   \<and> notEarlier (isoTime ''2026-11-02T10:00:00.000Z'') (isoTime ''2026-11-01T09:00:00.000Z'')
   \<and> notEarlier (isoTime ''2024-10-22'') (isoTime ''2024-09-18'')"
proof -
  let ?reg = "[getStaticDefectRegistry ! 2, getStaticDefectRegistry ! 1, getStaticDefectRegistry ! 0,
       createdYesterday ''DEF-101'' ''Branch Line'']"
  let ?ls = "snapshotOf [leakByControl] [leakByDrone]"
  let ?out = "fst (updateDefectRegistryWithDetections isoTime clockAt1000 (initialSession noRandomness) ?reg ?ls)"
  let ?f = "\<lambda>e. (itemId e, lastDetected e, detectedDate e)"
  have parse: "map (datesParse isoTime) ?reg = [True, True, True, True]"
    by (simp add: datesParse_def eval_defs iso_defs)
  then have h1: "\<forall>e \<in> set ?reg. datesParse isoTime e" by simp
  have h2: "timestampRead clockAt1000 \<noteq> []" by (simp add: clockAt1000_def)
  have now: "isoTime (timestampRead clockAt1000) = Some 1793613600000"
    by (simp add: clockAt1000_def iso_defs)
  then have h3: "isoTime (timestampRead clockAt1000) \<noteq> None" by simp
  have ev: "map ?f ?out
      = [(''DEF-001'', Some ''2026-11-02T10:00:00.000Z'', ''2026-11-02''),
         (''DEF-101'', Some ''2026-11-01T09:00:00.000Z'', ''2026-11-01''),
         (''DEF-002'', None, ''2024-10-22''),
         (''DEF-003'', None, ''2024-09-18'')]"
    by (simp add: eval_defs iso_defs)
  from map_eq_nth [OF ev] have len: "length ?out = 4"
    and at: "\<And>k. k < 4 \<Longrightarrow> ?f (?out ! k) =
        [(''DEF-001'', Some ''2026-11-02T10:00:00.000Z'', ''2026-11-02''),
         (''DEF-101'', Some ''2026-11-01T09:00:00.000Z'', ''2026-11-01''),
         (''DEF-002'', None, ''2024-10-22''),
         (''DEF-003'', None, ''2024-09-18'')] ! k"
    by simp_all
  from at [of 0] at [of 1] at [of 2] at [of 3]
  have l0: "lastDetected (?out ! 0) = Some ''2026-11-02T10:00:00.000Z''"
    and l1: "lastDetected (?out ! 1) = Some ''2026-11-01T09:00:00.000Z''"
    and l2: "lastDetected (?out ! 2) = None" and d2: "detectedDate (?out ! 2) = ''2024-10-22''"
    and l3: "lastDetected (?out ! 3) = None" and d3: "detectedDate (?out ! 3) = ''2024-09-18''"
    by simp_all
  note t = registry_ordering [OF h1 h2 h3, of "initialSession noRandomness" ?ls, rule_format]
  from t [of 0 1] len l0 l1
  have a: "notEarlier (isoTime ''2026-11-02T10:00:00.000Z'') (isoTime ''2026-11-01T09:00:00.000Z'')"
    by simp
  from t [of 2 3] len l2 l3 d2 d3
  have b: "notEarlier (isoTime ''2024-10-22'') (isoTime ''2024-09-18'')"
    by simp
  show ?thesis by (rule conjI [OF parse conjI [OF now conjI [OF ev conjI [OF a b]]]])
qed

section \<open>C5: no duplicated key\<close>



section \<open>C6: automatic status\<close>

text \<open>
  C6 as stated fails where the risk level stored in an entry is not the level of its defect
  type: the update branch keeps the stored \<open>riskLevel\<close> (it is not listed behind the spread)
  and computes the status from \<^verbatim>\<open>getRiskLevel(defectType).level\<close>. An entry for a major leak
  that is stored with risk level warning is re-detected: its risk level stays warning, for
  which the claim gives progress, and its status becomes pending.
\<close>

theorem automatic_status_counterexample:
  "map (\<lambda>e. (itemId e, itemDefectType e, riskLevel e, status e))
       [(getStaticDefectRegistry ! 0)\<lparr>riskLevel := Some warning\<rparr>]
     = [(''DEF-001'', ''Major/Sudden Leak'', Some warning, resolved)]
   \<and> map (\<lambda>e. (itemId e, itemDefectType e, riskLevel e, status e))
       (fst (updateDefectRegistryWithDetections isoTime clockAt1000 (initialSession noRandomness)
              [(getStaticDefectRegistry ! 0)\<lparr>riskLevel := Some warning\<rparr>]
              (snapshotOf [leakByControl] [leakByDrone])))
     = [(''DEF-001'', ''Major/Sudden Leak'', Some warning, pending)]"
  by (simp add: eval_defs iso_defs)

text \<open>
  C6 (amended). The status is determined by the risk level that the classifier gives the
  defect type of the entry: critical gives pending, warning gives progress, low gives
  pending.

  \<^item> An entry whose key occurs among the keys of at most one system is returned as it was,
    status included.
  \<^item> Every returned entry that is not an input entry carried over (it was created or
    updated) has the status of the classifier's level of its defect type.
  \<^item> In a registry without duplicated pairs, every returned entry whose pair both systems
    report, under an unshared key, has that status.
  \<^item> Where the stored risk levels are those of the classifier they stay so; the status of a
    created or updated entry is then the one of its stored level.
  \<^item> The call never sets resolved.
\<close>

theorem automatic_status:
  "(\<forall>e \<in> set (fst (updateDefectRegistryWithDetections gt clk s reg ls)).
       detectionKey (fst (pairOf e)) (snd (pairOf e)) \<notin> keyOf ` set (detections (controlSystem ls))
       \<or> detectionKey (fst (pairOf e)) (snd (pairOf e)) \<notin> keyOf ` set (detections (drone ls))
       \<longrightarrow> e \<in> set reg)
   \<and> (\<forall>e \<in> set (fst (updateDefectRegistryWithDetections gt clk s reg ls)).
       e \<in> set reg \<or> status e = statusFor (levelOf (getRiskLevel (itemDefectType e))))
   \<and> (distinct (map pairOf reg) \<longrightarrow>
        (\<forall>e \<in> set (fst (updateDefectRegistryWithDetections gt clk s reg ls)).
           reportedByBoth ls (pairOf e) \<and> keyUnshared ls (pairOf e) \<longrightarrow>
             status e = statusFor (levelOf (getRiskLevel (itemDefectType e)))))
   \<and> ((\<forall>e \<in> set reg. riskConsistent e) \<longrightarrow>
        (\<forall>e \<in> set (fst (updateDefectRegistryWithDetections gt clk s reg ls)).
           riskConsistent e \<and> (e \<in> set reg \<or> status e = statusFor (riskLevel e))))
   \<and> statusFor (Some critical) = pending \<and> statusFor (Some warning) = progress
   \<and> statusFor (Some low) = pending \<and> (\<forall>l. statusFor l \<noteq> resolved)"
proof -
  let ?out = "fst (updateDefectRegistryWithDetections gt clk s reg ls)"
  let ?m = "fst (mergeDetections clk s reg ls)"
  have sub: "set ?out \<subseteq> set ?m" by (rule output_set_subset)
  have a: "\<forall>e \<in> set ?out.
       detectionKey (fst (pairOf e)) (snd (pairOf e)) \<notin> keyOf ` set (detections (controlSystem ls))
       \<or> detectionKey (fst (pairOf e)) (snd (pairOf e)) \<notin> keyOf ` set (detections (drone ls))
       \<longrightarrow> e \<in> set reg"
  proof (intro ballI impI)
    fix e assume e: "e \<in> set ?out"
      and k: "detectionKey (fst (pairOf e)) (snd (pairOf e)) \<notin> keyOf ` set (detections (controlSystem ls))
       \<or> detectionKey (fst (pairOf e)) (snd (pairOf e)) \<notin> keyOf ` set (detections (drone ls))"
    from not_agreed [OF k] have n: "pairOf e \<notin> set (agreedPairs ls)" by simp
    from e sub have "e \<in> set (filter (\<lambda>x. pairOf x = pairOf e) ?m)" by auto
    with merged_other_pair [OF n, of clk s reg] show "e \<in> set reg" by simp
  qed
  have b: "\<forall>e \<in> set ?out. e \<in> set reg \<or> status e = statusFor (levelOf (getRiskLevel (itemDefectType e)))"
    using merge_touched [of clk "(reg, s)" "map snd (groupDetections ls)"] sub
    by (auto simp: merged_eq redetected_def)
  have c: "distinct (map pairOf reg) \<longrightarrow>
        (\<forall>e \<in> set ?out. reportedByBoth ls (pairOf e) \<and> keyUnshared ls (pairOf e) \<longrightarrow>
             status e = statusFor (levelOf (getRiskLevel (itemDefectType e))))"
  proof (intro impI ballI)
    fix e assume d: "distinct (map pairOf reg)" and e: "e \<in> set ?out"
      and both: "reportedByBoth ls (pairOf e) \<and> keyUnshared ls (pairOf e)"
    from both have "pairOf e \<in> set (agreedPairs ls)" by (simp add: both_report_agreed)
    with merged_agreed_redetected [OF d, of clk s ls] e sub have "redetected clk e" by blast
    then show "status e = statusFor (levelOf (getRiskLevel (itemDefectType e)))"
      by (simp add: redetected_def)
  qed
  have d: "(\<forall>e \<in> set reg. riskConsistent e) \<longrightarrow>
        (\<forall>e \<in> set ?out. riskConsistent e \<and> (e \<in> set reg \<or> status e = statusFor (riskLevel e)))"
  proof (intro impI ballI)
    fix e assume r: "\<forall>e \<in> set reg. riskConsistent e" and e: "e \<in> set ?out"
    from merge_riskConsistent [of "(reg, s)" "timestampRead clk" "currentDateOf clk" "map snd (groupDetections ls)"]
      r e sub
    have rc: "riskConsistent e" by (auto simp: merged_eq)
    with b e show "riskConsistent e \<and> (e \<in> set reg \<or> status e = statusFor (riskLevel e))"
      by (auto simp: riskConsistent_def)
  qed
  have e: "statusFor (Some critical) = pending \<and> statusFor (Some warning) = progress
   \<and> statusFor (Some low) = pending \<and> (\<forall>l. statusFor l \<noteq> resolved)"
    by (simp add: statusFor_def)
  show ?thesis by (rule conjI [OF a conjI [OF b conjI [OF c conjI [OF d e]]]])
qed

text \<open>
  Both systems report the major leak of \<open>DEF-001\<close> and a minor leak at the station that the
  registry does not hold, and the control system alone reports the major leak of \<open>DEF-002\<close>:
  the first becomes pending, the entry created for the second is in progress, and the third
  stays resolved.
\<close>

theorem automatic_status_witness:
  "distinct (map pairOf (take 2 getStaticDefectRegistry))
   \<and> map (\<lambda>e. (itemId e, riskLevel e, status e)) (take 2 getStaticDefectRegistry)
       = [(''DEF-001'', Some critical, resolved), (''DEF-002'', Some critical, resolved)]
   \<and> map (\<lambda>e. (itemId e, pairOf e, riskLevel e, status e))
        (fst (updateDefectRegistryWithDetections isoTime clockAt1000 (initialSession noRandomness)
               (take 2 getStaticDefectRegistry)
               (snapshotOf [leakByControl, minorLeakAt ''Station Area'', leakAtPipeline]
                           [leakByDrone, minorLeakAt ''Station Area''])))
       = [(''DEF-001'', (Some ''Section A-B'', ''Major/Sudden Leak''), Some critical, pending),
          (''DEF-101'', (Some ''Station Area'', ''Minor/Gradual Leak''), Some warning, progress),
          (''DEF-002'', (Some ''Main Pipeline KM 12.5'', ''Major/Sudden Leak''), Some critical, resolved)]
   \<and> reportedByBoth (snapshotOf [leakByControl, minorLeakAt ''Station Area'', leakAtPipeline]
                                [leakByDrone, minorLeakAt ''Station Area''])
         (Some ''Section A-B'', ''Major/Sudden Leak'')
   \<and> keyUnshared (snapshotOf [leakByControl, minorLeakAt ''Station Area'', leakAtPipeline]
                             [leakByDrone, minorLeakAt ''Station Area''])
         (Some ''Section A-B'', ''Major/Sudden Leak'')
   \<and> detectionKey (Some ''Main Pipeline KM 12.5'') ''Major/Sudden Leak''
       \<notin> keyOf ` set (detections (drone (snapshotOf [leakByControl, minorLeakAt ''Station Area'', leakAtPipeline]
                                                      [leakByDrone, minorLeakAt ''Station Area''])))
   \<and> status (fst (updateDefectRegistryWithDetections isoTime clockAt1000 (initialSession noRandomness)
               (take 2 getStaticDefectRegistry)
               (snapshotOf [leakByControl, minorLeakAt ''Station Area'', leakAtPipeline]
                           [leakByDrone, minorLeakAt ''Station Area''])) ! 0)
       = statusFor (levelOf (getRiskLevel ''Major/Sudden Leak''))
   \<and> fst (updateDefectRegistryWithDetections isoTime clockAt1000 (initialSession noRandomness)
               (take 2 getStaticDefectRegistry)
               (snapshotOf [leakByControl, minorLeakAt ''Station Area'', leakAtPipeline]
                           [leakByDrone, minorLeakAt ''Station Area''])) ! 2
        \<in> set (take 2 getStaticDefectRegistry)"
proof -
  let ?reg = "take 2 getStaticDefectRegistry"
  let ?ls = "snapshotOf [leakByControl, minorLeakAt ''Station Area'', leakAtPipeline]
                        [leakByDrone, minorLeakAt ''Station Area'']"
  let ?out = "fst (updateDefectRegistryWithDetections isoTime clockAt1000 (initialSession noRandomness) ?reg ?ls)"
  let ?f = "\<lambda>e. (itemId e, pairOf e, riskLevel e, status e)"
  have h: "distinct (map pairOf ?reg)"
    by (simp add: getStaticDefectRegistry_def pairOf_def)
  have before: "map (\<lambda>e. (itemId e, riskLevel e, status e)) ?reg
       = [(''DEF-001'', Some critical, resolved), (''DEF-002'', Some critical, resolved)]"
    by (simp add: getStaticDefectRegistry_def)
  have ev: "map ?f ?out
       = [(''DEF-001'', (Some ''Section A-B'', ''Major/Sudden Leak''), Some critical, pending),
          (''DEF-101'', (Some ''Station Area'', ''Minor/Gradual Leak''), Some warning, progress),
          (''DEF-002'', (Some ''Main Pipeline KM 12.5'', ''Major/Sudden Leak''), Some critical, resolved)]"
    by (simp add: notion_defs eval_defs iso_defs)
  have rb: "reportedByBoth ?ls (Some ''Section A-B'', ''Major/Sudden Leak'')"
    by (simp add: notion_defs eval_defs)
  have ku: "keyUnshared ?ls (Some ''Section A-B'', ''Major/Sudden Leak'')"
    by (simp add: notion_defs eval_defs)
  have nk: "detectionKey (Some ''Main Pipeline KM 12.5'') ''Major/Sudden Leak''
       \<notin> keyOf ` set (detections (drone ?ls))"
    by (simp add: notion_defs eval_defs)
  from map_eq_nth [OF ev] have len: "length ?out = 3"
    and at: "\<And>k. k < 3 \<Longrightarrow> ?f (?out ! k) =
        [(''DEF-001'', (Some ''Section A-B'', ''Major/Sudden Leak''), Some critical, pending),
          (''DEF-101'', (Some ''Station Area'', ''Minor/Gradual Leak''), Some warning, progress),
          (''DEF-002'', (Some ''Main Pipeline KM 12.5'', ''Major/Sudden Leak''), Some critical, resolved)] ! k"
    by simp_all
  from at [of 0] at [of 2]
  have p0: "pairOf (?out ! 0) = (Some ''Section A-B'', ''Major/Sudden Leak'')"
    and p2: "pairOf (?out ! 2) = (Some ''Main Pipeline KM 12.5'', ''Major/Sudden Leak'')"
    by simp_all
  from p0 have t0: "itemDefectType (?out ! 0) = ''Major/Sudden Leak''" by (simp add: pairOf_def)
  have in0: "?out ! 0 \<in> set ?out" and in2: "?out ! 2 \<in> set ?out" using len by simp_all
  note t = automatic_status [of isoTime clockAt1000 "initialSession noRandomness" ?reg ?ls]
  from rb ku p0 have both0: "reportedByBoth ?ls (pairOf (?out ! 0)) \<and> keyUnshared ?ls (pairOf (?out ! 0))"
    by simp
  from t [THEN conjunct2, THEN conjunct2, THEN conjunct1, rule_format, OF h in0 both0] t0
  have s0: "status (?out ! 0) = statusFor (levelOf (getRiskLevel ''Major/Sudden Leak''))"
    by simp
  from nk p2 have "detectionKey (fst (pairOf (?out ! 2))) (snd (pairOf (?out ! 2)))
       \<notin> keyOf ` set (detections (drone ?ls))"
    by simp
  from t [THEN conjunct1, rule_format, OF in2 disjI2, OF this]
  have s2: "?out ! 2 \<in> set ?reg" .
  show ?thesis by (rule conjI [OF h conjI [OF before conjI [OF ev conjI [OF rb conjI [OF ku
     conjI [OF nk conjI [OF s0 s2]]]]]]])
qed

text \<open>
  The first item speaks of keys, as the reconciler does. Where two pairs share a key it acts
  on the control system's pair although the drone reports another one: the control system
  reports type \<^verbatim>\<open>B-C\<close> at \<^verbatim>\<open>A\<close>, the drone type \<^verbatim>\<open>C\<close> at \<^verbatim>\<open>A-B\<close>, and the resolved entry for the
  control system's pair is put in progress.
\<close>

lemma shared_key_status_example:
  "\<not> reportedByBoth
      (snapshotOf [\<lparr>defectType = ''B-C'', sign = ''s'', source = ''PT'', location = Some ''A''\<rparr>]
                  [\<lparr>defectType = ''C'', sign = ''s'', source = ''camera'', location = Some ''A-B''\<rparr>])
      (Some ''A'', ''B-C'')
   \<and> map (\<lambda>e. (itemId e, pairOf e, status e))
        [(getStaticDefectRegistry ! 0)\<lparr>itemLocation := Some ''A'', itemDefectType := ''B-C''\<rparr>]
      = [(''DEF-001'', (Some ''A'', ''B-C''), resolved)]
   \<and> map (\<lambda>e. (itemId e, pairOf e, status e))
       (fst (updateDefectRegistryWithDetections isoTime clockAt1000 (initialSession noRandomness)
         [(getStaticDefectRegistry ! 0)\<lparr>itemLocation := Some ''A'', itemDefectType := ''B-C''\<rparr>]
         (snapshotOf [\<lparr>defectType = ''B-C'', sign = ''s'', source = ''PT'', location = Some ''A''\<rparr>]
                     [\<lparr>defectType = ''C'', sign = ''s'', source = ''camera'', location = Some ''A-B''\<rparr>])))
      = [(''DEF-001'', (Some ''A'', ''B-C''), progress)]"
  by (simp add: notion_defs eval_defs iso_defs)

section \<open>C7: the risk classifier\<close>

text \<open>
  C7 (evaluation at the failing input). The six known defect types map to their levels,
  and an unknown type that is not a property name of \<^verbatim>\<open>Object.prototype\<close> gets the fallback;
  but for the input \<^verbatim>\<open>'constructor'\<close> the function returns the inherited member, which is
  not the fallback record and has no level.
\<close>

theorem getRiskLevel_inherited_key:
  "getRiskLevel ''constructor'' = Inherited ''constructor''
   \<and> getRiskLevel ''constructor'' \<noteq> Info fallbackRisk
   \<and> levelOf (getRiskLevel ''constructor'') = None
   \<and> labelOf (getRiskLevel ''constructor'') = None
   \<and> levelOf (getRiskLevel ''Major/Sudden Leak'') = Some critical
   \<and> levelOf (getRiskLevel ''Mechanical Damage'') = Some critical
   \<and> levelOf (getRiskLevel ''Minor/Gradual Leak'') = Some warning
   \<and> levelOf (getRiskLevel ''Poor Pipe Support'') = Some warning
   \<and> levelOf (getRiskLevel ''Corrosion & Erosion'') = Some low
   \<and> levelOf (getRiskLevel ''Insulation/Coating Failure'') = Some low
   \<and> getRiskLevel ''Weld Defect'' = Info fallbackRisk"
  by (simp add: getRiskLevel_def riskMap_def objectPrototypeKeys_def levelOf_def labelOf_def)

section \<open>C8: identifier allocation\<close>

text \<open>
  C8. The identifiers that any number of successive calls of \<open>generateDefectId\<close> return in a
  fresh session are \<^verbatim>\<open>DEF-\<close> followed by the counter value padded with zeros to three digits,
  for the counter values 101, 102, ... in this order: their numbers increase strictly, no
  identifier occurs twice, and none is one of the pre-seeded \<open>DEF-001\<close> to \<open>DEF-012\<close>; from any
  state of the session the calls continue behind the current counter.

  The reconciler is the caller of \<open>generateDefectId\<close>. The identifiers of the entries one
  call creates are what that many successive calls of \<open>generateDefectId\<close> return from the
  state the call started in, and the call leaves the counter advanced by their number,
  whether or not the created entries survive the truncation. So the identifiers created over
  all calls of a session, each call starting from the registry and the counter the previous
  one left, are again what successive calls of \<open>generateDefectId\<close> return: no identifier is
  given out twice. Every \<open>id\<close> in a registry of the session is an \<open>id\<close> of the starting
  registry or one of these. Where no \<open>id\<close> of the registry runs ahead of the counter (as in
  the initial registry with the initial counter), the identifiers a call creates differ from
  every \<open>id\<close> in the registry, and the returned registry and counter are again such.
\<close>

theorem identifier_allocation:
  "fst (generateDefectIds k (initialSession rnd)) =
      map (\<lambda>n. ''DEF-'' @ padStart 3 (CHR ''0'') (String n)) [101 ..< 101 + k]
   \<and> map idNumber (fst (generateDefectIds k (initialSession rnd))) = map Some [101 ..< 101 + k]
   \<and> sorted_wrt (\<lambda>i j. the (idNumber i) < the (idNumber j)) (fst (generateDefectIds k (initialSession rnd)))
   \<and> distinct (fst (generateDefectIds k (initialSession rnd)))
   \<and> map idNumber (map itemId getStaticDefectRegistry) = map Some [1, 2, 3, 4, 5, 6, 7, 8, 9, 10, 11, 12]
   \<and> set (fst (generateDefectIds k (initialSession rnd))) \<inter> set (map itemId getStaticDefectRegistry) = {}
   \<and> fst (generateDefectIds k s) =
      map (\<lambda>n. ''DEF-'' @ padStart 3 (CHR ''0'') (String n)) [Suc (defectIdCounter s) ..< Suc (defectIdCounter s) + k]
   \<and> defectIdCounter (snd (generateDefectIds k s)) = defectIdCounter s + k
   \<and> createdIds clk s reg ls = fst (generateDefectIds (length (createdIds clk s reg ls)) s)
   \<and> defectIdCounter (snd (updateDefectRegistryWithDetections gt clk s reg ls))
       = defectIdCounter s + length (createdIds clk s reg ls)
   \<and> set (map itemId (fst (updateDefectRegistryWithDetections gt clk s reg ls)))
       \<subseteq> set (map itemId reg) \<union> set (createdIds clk s reg ls)
   \<and> issuedInSession gt s reg steps = fst (generateDefectIds (length (issuedInSession gt s reg steps)) s)
   \<and> distinct (issuedInSession gt s reg steps)
   \<and> list_all (\<lambda>R. set (map itemId R) \<subseteq> set (map itemId reg) \<union> set (issuedInSession gt s reg steps))
        (reconcileTrace gt s reg steps)
   \<and> withinCounter (initialSession rnd) (getInitialDefectRegistry gt)
   \<and> (withinCounter s reg \<longrightarrow>
        set (createdIds clk s reg ls) \<inter> set (map itemId reg) = {}
        \<and> set (issuedInSession gt s reg steps) \<inter> set (map itemId reg) = {}
        \<and> withinCounter (snd (updateDefectRegistryWithDetections gt clk s reg ls))
             (fst (updateDefectRegistryWithDetections gt clk s reg ls)))"
proof -
  let ?ids = "fst (generateDefectIds k (initialSession rnd))"
  have a: "?ids = map (\<lambda>n. ''DEF-'' @ padStart 3 (CHR ''0'') (String n)) [101 ..< 101 + k]"
    using generateDefectIds_eq [of k "initialSession rnd"] by (simp add: initialSession_def)
  have b: "map idNumber ?ids = map Some [101 ..< 101 + k]"
    unfolding a by (simp only: map_map comp_def idNumber_generated)
  have b': "sorted_wrt (\<lambda>i j. the (idNumber i) < the (idNumber j)) ?ids"
  proof -
    have "map (\<lambda>i. the (idNumber i)) ?ids = map the (map idNumber ?ids)" by simp
    also have "\<dots> = [101 ..< 101 + k]" unfolding b by (simp only: map_map comp_def option.sel map_ident)
    finally have "sorted_wrt (<) (map (\<lambda>i. the (idNumber i)) ?ids)" by (simp only: sorted_wrt_upt)
    then show ?thesis by (simp only: sorted_wrt_map)
  qed
  have c: "distinct ?ids"
  proof -
    have "distinct (map idNumber ?ids)" unfolding b by (simp add: distinct_map)
    then show ?thesis by (simp add: distinct_map)
  qed
  have d: "map idNumber (map itemId getStaticDefectRegistry) = map Some [1, 2, 3, 4, 5, 6, 7, 8, 9, 10, 11, 12]"
    by (simp add: getStaticDefectRegistry_def idNumber_def)
  have e: "set ?ids \<inter> set (map itemId getStaticDefectRegistry) = {}"
  proof (rule ccontr)
    assume "set ?ids \<inter> set (map itemId getStaticDefectRegistry) \<noteq> {}"
    then obtain i where i: "i \<in> set ?ids" "i \<in> set (map itemId getStaticDefectRegistry)" by blast
    from i(1) have "idNumber i \<in> set (map idNumber ?ids)"
      by (metis imageI list.set_map)
    then obtain n where n: "idNumber i = Some n" "101 \<le> n" unfolding b by auto
    from i(2) have "idNumber i \<in> set (map idNumber (map itemId getStaticDefectRegistry))"
      by (metis imageI list.set_map)
    then obtain m where m: "idNumber i = Some m" "m < 13" unfolding d by auto
    from n m show False by simp
  qed
  have f: "fst (generateDefectIds k s) =
      map (\<lambda>n. ''DEF-'' @ padStart 3 (CHR ''0'') (String n)) [Suc (defectIdCounter s) ..< Suc (defectIdCounter s) + k]"
    and g: "defectIdCounter (snd (generateDefectIds k s)) = defectIdCounter s + k"
    using generateDefectIds_eq [of k s] by blast+
  have h: "createdIds clk s reg ls = fst (generateDefectIds (length (createdIds clk s reg ls)) s)"
    unfolding generateDefectIds_defectIdOf by (rule createdIds_eq [THEN conjunct1])
  have i: "defectIdCounter (snd (updateDefectRegistryWithDetections gt clk s reg ls))
       = defectIdCounter s + length (createdIds clk s reg ls)"
    by (rule createdIds_eq [THEN conjunct2])
  have j: "set (map itemId (fst (updateDefectRegistryWithDetections gt clk s reg ls)))
       \<subseteq> set (map itemId reg) \<union> set (createdIds clk s reg ls)"
    by (rule output_ids)
  have l: "issuedInSession gt s reg steps = fst (generateDefectIds (length (issuedInSession gt s reg steps)) s)"
    unfolding generateDefectIds_defectIdOf by (rule issuedInSession_eq)
  have m: "distinct (issuedInSession gt s reg steps)"
  proof -
    obtain n where "issuedInSession gt s reg steps
        = map defectIdOf [Suc (defectIdCounter s) ..< Suc (defectIdCounter s) + n]"
      using issuedInSession_eq [of gt s reg steps] by blast
    then show ?thesis by (simp only: distinct_defectIds)
  qed
  have n: "list_all (\<lambda>R. set (map itemId R) \<subseteq> set (map itemId reg) \<union> set (issuedInSession gt s reg steps))
        (reconcileTrace gt s reg steps)"
    by (rule trace_ids)
  have o: "withinCounter (initialSession rnd) (getInitialDefectRegistry gt)"
    by (rule withinCounter_initial)
  have p: "withinCounter s reg \<longrightarrow>
        set (createdIds clk s reg ls) \<inter> set (map itemId reg) = {}
        \<and> set (issuedInSession gt s reg steps) \<inter> set (map itemId reg) = {}
        \<and> withinCounter (snd (updateDefectRegistryWithDetections gt clk s reg ls))
             (fst (updateDefectRegistryWithDetections gt clk s reg ls))"
    using created_fresh [of s reg clk ls] issued_fresh [of s reg gt steps]
      withinCounter_output [of s reg gt clk ls] by blast
  show ?thesis
    by (rule conjI [OF a conjI [OF b conjI [OF b' conjI [OF c conjI [OF d conjI [OF e conjI [OF f conjI [OF g
        conjI [OF h conjI [OF i conjI [OF j conjI [OF l conjI [OF m conjI [OF n conjI [OF o p]]]]]]]]]]]]]]])
qed

text \<open>
  A full registry, with the counter at 103, meets a snapshot in which both systems report a
  major leak at the station: the call creates \<open>DEF-104\<close>, the truncation drops \<open>DEF-012\<close>, and
  the counter stands at 104. In a session of two calls on a small registry, the first call
  creates \<open>DEF-101\<close> for that leak and the second \<open>DEF-102\<close> for a minor leak at the same place.
\<close>

theorem identifier_allocation_witness:
  "withinCounter \<lparr>defectIdCounter = 103, mathRandom = noRandomness\<rparr> fullRegistry
   \<and> createdIds clockAt1000 \<lparr>defectIdCounter = 103, mathRandom = noRandomness\<rparr> fullRegistry
          (snapshotOf [leakAtStation] [leakAtStation]) = [''DEF-104'']
   \<and> map itemId (fst (updateDefectRegistryWithDetections isoTime clockAt1000
          \<lparr>defectIdCounter = 103, mathRandom = noRandomness\<rparr> fullRegistry
          (snapshotOf [leakAtStation] [leakAtStation])))
       = [''DEF-104'', ''DEF-101'', ''DEF-102'', ''DEF-103'', ''DEF-001'', ''DEF-002'', ''DEF-003'', ''DEF-004'',
          ''DEF-005'', ''DEF-006'', ''DEF-007'', ''DEF-008'', ''DEF-009'', ''DEF-010'', ''DEF-011'']
   \<and> defectIdCounter (snd (updateDefectRegistryWithDetections isoTime clockAt1000
          \<lparr>defectIdCounter = 103, mathRandom = noRandomness\<rparr> fullRegistry
          (snapshotOf [leakAtStation] [leakAtStation]))) = 104
   \<and> set (createdIds clockAt1000 \<lparr>defectIdCounter = 103, mathRandom = noRandomness\<rparr> fullRegistry
          (snapshotOf [leakAtStation] [leakAtStation])) \<inter> set (map itemId fullRegistry) = {}
   \<and> withinCounter
        (snd (updateDefectRegistryWithDetections isoTime clockAt1000
          \<lparr>defectIdCounter = 103, mathRandom = noRandomness\<rparr> fullRegistry
          (snapshotOf [leakAtStation] [leakAtStation])))
        (fst (updateDefectRegistryWithDetections isoTime clockAt1000
          \<lparr>defectIdCounter = 103, mathRandom = noRandomness\<rparr> fullRegistry
          (snapshotOf [leakAtStation] [leakAtStation])))
   \<and> issuedInSession isoTime (initialSession noRandomness) (take 2 getStaticDefectRegistry)
        [(clockAt1000, snapshotOf [leakAtStation] [leakAtStation]),
         (clockAt1030, snapshotOf [minorLeakAt ''Station Area''] [minorLeakAt ''Station Area''])]
       = [''DEF-101'', ''DEF-102'']
   \<and> map (map itemId)
        (reconcileTrace isoTime (initialSession noRandomness) (take 2 getStaticDefectRegistry)
          [(clockAt1000, snapshotOf [leakAtStation] [leakAtStation]),
           (clockAt1030, snapshotOf [minorLeakAt ''Station Area''] [minorLeakAt ''Station Area''])])
       = [[''DEF-101'', ''DEF-001'', ''DEF-002''], [''DEF-102'', ''DEF-101'', ''DEF-001'', ''DEF-002'']]"
proof -
  let ?s = "\<lparr>defectIdCounter = 103, mathRandom = noRandomness\<rparr>"
  let ?ls = "snapshotOf [leakAtStation] [leakAtStation]"
  let ?r = "updateDefectRegistryWithDetections isoTime clockAt1000 ?s fullRegistry ?ls"
  let ?steps = "[(clockAt1000, snapshotOf [leakAtStation] [leakAtStation]),
         (clockAt1030, snapshotOf [minorLeakAt ''Station Area''] [minorLeakAt ''Station Area''])]"
  have w: "withinCounter ?s fullRegistry"
    by (simp add: withinCounter_def idNumber_def eval_defs)
  have cr: "createdIds clockAt1000 ?s fullRegistry ?ls = [''DEF-104'']"
    by (simp add: createdIds_def eval_defs)
  have ids: "map itemId (fst ?r)
       = [''DEF-104'', ''DEF-101'', ''DEF-102'', ''DEF-103'', ''DEF-001'', ''DEF-002'', ''DEF-003'', ''DEF-004'',
          ''DEF-005'', ''DEF-006'', ''DEF-007'', ''DEF-008'', ''DEF-009'', ''DEF-010'', ''DEF-011'']"
    by (simp add: eval_defs iso_defs)
  have iss: "issuedInSession isoTime (initialSession noRandomness) (take 2 getStaticDefectRegistry) ?steps
       = [''DEF-101'', ''DEF-102'']"
    by (simp add: createdIds_def eval_defs iso_defs)
  have tr: "map (map itemId)
        (reconcileTrace isoTime (initialSession noRandomness) (take 2 getStaticDefectRegistry) ?steps)
       = [[''DEF-101'', ''DEF-001'', ''DEF-002''], [''DEF-102'', ''DEF-101'', ''DEF-001'', ''DEF-002'']]"
    by (simp add: eval_defs iso_defs)
  note t = identifier_allocation [of 0 noRandomness ?s clockAt1000 fullRegistry ?ls isoTime "[]"]
  from t have "defectIdCounter (snd ?r) = defectIdCounter ?s + length (createdIds clockAt1000 ?s fullRegistry ?ls)"
    by blast
  then have cnt: "defectIdCounter (snd ?r) = 104" unfolding cr by simp
  from t w have fresh: "set (createdIds clockAt1000 ?s fullRegistry ?ls) \<inter> set (map itemId fullRegistry) = {}"
    and w': "withinCounter (snd ?r) (fst ?r)"
    by blast+
  show ?thesis by (rule conjI [OF w conjI [OF cr conjI [OF ids conjI [OF cnt conjI [OF fresh
     conjI [OF w' conjI [OF iss tr]]]]]]])
qed

section \<open>C9: the synthetic generator\<close>

text \<open>
  C9. For draws in the unit interval \<open>generateLeakageStatus\<close> returns a snapshot (it never
  throws). The two detection lists have the same length, at most three, and they are
  non-empty exactly when the first draw exceeds 0.2; entry by entry the control system's
  and the drone's detection have the same location and the same defect type; every type
  that occurs belongs to a scenario with signatures of both systems, so Mechanical Damage
  does not occur; each system's status is detected exactly when its list is non-empty; and
  the total is the number of pairs.
\<close>

theorem generator_contract:
  assumes "\<forall>k. 0 \<le> mathRandom s k \<and> mathRandom s k < 1"
  shows "\<exists>ls s'. generateLeakageStatus s = Inr (ls, s')
     \<and> length (detections (controlSystem ls)) = length (detections (drone ls))
     \<and> length (detections (controlSystem ls)) \<le> 3
     \<and> ((detections (controlSystem ls) \<noteq> []) = (2 / 10 < mathRandom s 0))
     \<and> map detectionPair (detections (controlSystem ls)) = map detectionPair (detections (drone ls))
     \<and> ''Mechanical Damage'' \<notin> defectType ` set (detections (controlSystem ls) @ detections (drone ls))
     \<and> defectType ` set (detections (controlSystem ls) @ detections (drone ls))
          \<subseteq> scenarioType ` {sc \<in> set defectScenarios. byControlSystem sc \<noteq> [] \<and> byDrone sc \<noteq> []}
     \<and> ((sysStatus (controlSystem ls) = detected) = (detections (controlSystem ls) \<noteq> []))
     \<and> ((sysStatus (drone ls) = detected) = (detections (drone ls) \<noteq> []))
     \<and> totalLeakages ls = int (length (detections (controlSystem ls)))"
proof -
  have u: "unitRandom s" using assms by (simp add: unitRandom_def)
  note u0 = unitRandom_next [OF u]
  have r0: "fst (nextRandom s) = mathRandom s 0" by (simp add: nextRandom_def)
  have sub: "scenarioType ` set defectsWithBothSystems
       \<subseteq> scenarioType ` {sc \<in> set defectScenarios. byControlSystem sc \<noteq> [] \<and> byDrone sc \<noteq> []}"
    by (auto simp: defectsWithBothSystems_def)
  show ?thesis
  proof (cases "2 / 10 < mathRandom s 0")
    case False
    then show ?thesis by (simp add: generateLeakageStatus_def Let_def r0)
  next
    case True
    let ?r1 = "nextRandom (snd (nextRandom s))"
    let ?num = "\<lfloor>fst ?r1 * 3\<rfloor> + 1"
    note u1 = unitRandom_next [OF u0(3)]
    from numLeakages_range [OF u1(1,2)] have num: "1 \<le> ?num" "?num \<le> 3" by simp_all
    have sync0: "synchronized [] []" by (simp add: synchronized_def)
    from generateRounds_ok [OF u1(3) sync0, of "nat ?num"] obtain cs ds s' where
      run: "generateRounds (nat ?num) [] [] (snd ?r1) = Inr (cs, ds, s')"
      and sync: "synchronized cs ds" and len: "length cs = nat ?num" "length ds = nat ?num"
      by auto
    let ?ls = "\<lparr>controlSystem = \<lparr>sysStatus = (if 0 < length cs then detected else ok), detections = cs\<rparr>,
               drone = \<lparr>sysStatus = (if 0 < length ds then detected else ok), detections = ds\<rparr>,
               totalLeakages = ?num\<rparr>"
    have res: "generateLeakageStatus s = Inr (?ls, s')"
      using True run by (simp add: generateLeakageStatus_def Let_def r0)
    have pos: "0 < nat ?num" using num(1) by linarith
    have "0 < length cs" "0 < length ds" using len pos by (simp_all only:)
    then have ne: "cs \<noteq> []" "ds \<noteq> []" by simp_all
    have md: "''Mechanical Damage'' \<notin> defectType ` set (cs @ ds)"
      using sync unfolding synchronized_def both_types by auto
    have ty: "defectType ` set (cs @ ds)
          \<subseteq> scenarioType ` {sc \<in> set defectScenarios. byControlSystem sc \<noteq> [] \<and> byDrone sc \<noteq> []}"
      using sync sub unfolding synchronized_def by blast
    have tot: "?num = int (length cs)" using len(1) num(1) by linarith
    have l3: "length cs \<le> 3" using len(1) num(2) by linarith
    have sel: "detections (controlSystem ?ls) = cs" "detections (drone ?ls) = ds"
      "sysStatus (controlSystem ?ls) = (if 0 < length cs then detected else ok)"
      "sysStatus (drone ?ls) = (if 0 < length ds then detected else ok)"
      "totalLeakages ?ls = ?num"
      by simp_all
    have pairs: "map detectionPair cs = map detectionPair ds"
      using sync by (simp only: synchronized_def)
    show ?thesis
    proof (intro exI conjI)
      show "generateLeakageStatus s = Inr (?ls, s')" by (rule res)
      show "length (detections (controlSystem ?ls)) = length (detections (drone ?ls))"
        unfolding sel using len by (simp only:)
      show "length (detections (controlSystem ?ls)) \<le> 3" unfolding sel by (rule l3)
      show "(detections (controlSystem ?ls) \<noteq> []) = (2 / 10 < mathRandom s 0)"
        unfolding sel using ne(1) True by (simp only: simp_thms)
      show "map detectionPair (detections (controlSystem ?ls)) = map detectionPair (detections (drone ?ls))"
        unfolding sel by (rule pairs)
      show "''Mechanical Damage'' \<notin> defectType ` set (detections (controlSystem ?ls) @ detections (drone ?ls))"
        unfolding sel by (rule md)
      show "defectType ` set (detections (controlSystem ?ls) @ detections (drone ?ls))
          \<subseteq> scenarioType ` {sc \<in> set defectScenarios. byControlSystem sc \<noteq> [] \<and> byDrone sc \<noteq> []}"
        unfolding sel by (rule ty)
      show "(sysStatus (controlSystem ?ls) = detected) = (detections (controlSystem ?ls) \<noteq> [])"
        unfolding sel using ne(1) by simp
      show "(sysStatus (drone ?ls) = detected) = (detections (drone ?ls) \<noteq> [])"
        unfolding sel using ne(2) by simp
      show "totalLeakages ?ls = int (length (detections (controlSystem ?ls)))"
        unfolding sel by (rule tot)
    qed
  qed
qed

theorem generator_contract_witness:
  "(\<forall>k. 0 \<le> mathRandom (initialSession steadyRandom) k \<and> mathRandom (initialSession steadyRandom) k < 1)
   \<and> (\<exists>ls s'. generateLeakageStatus (initialSession steadyRandom) = Inr (ls, s')
         \<and> map detectionPair (detections (controlSystem ls)) = [(Some ''Section C-D'', ''Minor/Gradual Leak'')]
         \<and> map detectionPair (detections (drone ls)) = [(Some ''Section C-D'', ''Minor/Gradual Leak'')]
         \<and> sysStatus (controlSystem ls) = detected \<and> sysStatus (drone ls) = detected)"
proof -
  have h: "\<forall>k. 0 \<le> mathRandom (initialSession steadyRandom) k \<and> mathRandom (initialSession steadyRandom) k < 1"
    by (simp add: initialSession_def steadyRandom_def)
  from generator_contract [OF h] obtain ls s' where
    r: "generateLeakageStatus (initialSession steadyRandom) = Inr (ls, s')"
    and eq: "map detectionPair (detections (controlSystem ls)) = map detectionPair (detections (drone ls))"
    and sc: "(sysStatus (controlSystem ls) = detected) = (detections (controlSystem ls) \<noteq> [])"
    and sd: "(sysStatus (drone ls) = detected) = (detections (drone ls) \<noteq> [])"
    by blast
  have ev: "(case generateLeakageStatus (initialSession steadyRandom) of
              Inl e \<Rightarrow> []
            | Inr res \<Rightarrow> map detectionPair (detections (controlSystem (fst res))))
        = [(Some ''Section C-D'', ''Minor/Gradual Leak'')]"
    by (simp add: generateLeakageStatus_def nextRandom_def initialSession_def steadyRandom_def
        pick_def defectsWithBothSystems_def defectScenarios_def locations_def Let_def detectionPair_def
        floor_rat_numeral)
  with r have c: "map detectionPair (detections (controlSystem ls)) = [(Some ''Section C-D'', ''Minor/Gradual Leak'')]"
    by simp
  with eq have d: "map detectionPair (detections (drone ls)) = [(Some ''Section C-D'', ''Minor/Gradual Leak'')]"
    by simp
  from c d have "detections (controlSystem ls) \<noteq> []" "detections (drone ls) \<noteq> []" by auto
  with sc sd have st: "sysStatus (controlSystem ls) = detected" "sysStatus (drone ls) = detected" by simp_all
  show ?thesis
  proof (intro conjI exI)
    show "\<forall>k. 0 \<le> mathRandom (initialSession steadyRandom) k \<and> mathRandom (initialSession steadyRandom) k < 1"
      by (rule h)
    show "generateLeakageStatus (initialSession steadyRandom) = Inr (ls, s')" by (rule r)
    show "map detectionPair (detections (controlSystem ls)) = [(Some ''Section C-D'', ''Minor/Gradual Leak'')]"
      by (rule c)
    show "map detectionPair (detections (drone ls)) = [(Some ''Section C-D'', ''Minor/Gradual Leak'')]"
      by (rule d)
    show "sysStatus (controlSystem ls) = detected" by (rule st(1))
    show "sysStatus (drone ls) = detected" by (rule st(2))
  qed
qed

section \<open>C10: the unauthorized failure\<close>

text \<open>
  C10 (evaluation at the failing input). A 401 response and a 500 response that carry no
  reason phrase (as every HTTP/2 response does) make \<open>getLeakageStatus\<close> fail with the same
  error, whose message passes neither of the tests by which the pages recognise an
  unauthorized failure. Only when the backend spells the reason phrase \<^verbatim>\<open>Unauthorized\<close> does
  the message tell.
\<close>

theorem unauthorized_not_distinguished:
  "getLeakageStatus
      (\<lambda>request. Responded \<lparr>isOk = False, httpStatus = 401, statusText = [], json = None\<rparr>)
      None
     = Inl (Error ''Failed to fetch leakage status: '')
   \<and> getLeakageStatus
      (\<lambda>request. Responded \<lparr>isOk = False, httpStatus = 500, statusText = [], json = None\<rparr>)
      (Some ''token'')
     = Inl (Error ''Failed to fetch leakage status: '')
   \<and> \<not> looksUnauthorized ''Failed to fetch leakage status: ''
   \<and> getLeakageStatus
      (\<lambda>request. Responded \<lparr>isOk = False, httpStatus = 401, statusText = ''Unauthorized'', json = None\<rparr>)
      None
     = Inl (Error ''Failed to fetch leakage status: Unauthorized'')
   \<and> looksUnauthorized ''Failed to fetch leakage status: Unauthorized''"
  by (simp add: getLeakageStatus_def looksUnauthorized_def stringIncludes_def)

text \<open>
  In general, whatever the status code: a response that is not ok fails with the fixed prefix
  followed by the reason phrase, and a rejected \<^verbatim>\<open>fetch\<close> passes through.
\<close>

lemma getLeakageStatus_not_ok:
  assumes "backend \<lparr>url = API_BASE_URL @ ''/leakage-status'', httpMethod = ''GET'',
                     headers = getAuthHeaders token\<rparr> = Responded response"
    and "\<not> isOk response"
  shows "getLeakageStatus backend token = Inl (Error (''Failed to fetch leakage status: '' @ statusText response))"
  using assms by (simp add: getLeakageStatus_def)

end
